theory Spec2Isabelle
  imports Complex_Main "HOL-Library.Word"
begin

section \<open>JavaScript strings\<close>

text \<open>
  A JavaScript string is a sequence of UTF-16 code units. The code under study indexes
  strings by code unit (\<^verbatim>\<open>cleanStream[i]\<close>, \<^verbatim>\<open>substring\<close>), so a string is
  modelled as a list of 16-bit words. \<open>js\<close> turns an ASCII literal of the theory into
  such a string.
\<close>

type_synonym jschar = "16 word"

type_synonym jsstring = "jschar list"

definition js :: "string \<Rightarrow> jsstring" where
  "js = map of_char"

abbreviation BACKSLASH :: jschar where "BACKSLASH \<equiv> 0x5C"

abbreviation DQUOTE :: jschar where "DQUOTE \<equiv> 0x22"

abbreviation SQUOTE :: jschar where "SQUOTE \<equiv> 0x27"

abbreviation LBRACE :: jschar where "LBRACE \<equiv> 0x7B"

abbreviation RBRACE :: jschar where "RBRACE \<equiv> 0x7D"

abbreviation LBRACKET :: jschar where "LBRACKET \<equiv> 0x5B"

abbreviation RBRACKET :: jschar where "RBRACKET \<equiv> 0x5D"

abbreviation COLON :: jschar where "COLON \<equiv> 0x3A"

abbreviation COMMA :: jschar where "COMMA \<equiv> 0x2C"

abbreviation BACKTICK :: jschar where "BACKTICK \<equiv> 0x60"

abbreviation GT :: jschar where "GT \<equiv> 0x3E"

abbreviation PERCENT :: jschar where "PERCENT \<equiv> 0x25"

text \<open>\<^verbatim>\<open>s.startsWith(p)\<close> and \<^verbatim>\<open>s.includes(p)\<close>.\<close>

fun startsWith :: "jsstring \<Rightarrow> jsstring \<Rightarrow> bool" where
  "startsWith s [] = True"
| "startsWith [] (p # ps) = False"
| "startsWith (c # cs) (p # ps) = (c = p \<and> startsWith cs ps)"

fun js_includes :: "jsstring \<Rightarrow> jsstring \<Rightarrow> bool" where
  "js_includes [] p = (p = [])"
| "js_includes (c # cs) p = (startsWith (c # cs) p \<or> js_includes cs p)"

text \<open>The decimal rendering of a non-negative integer, as a template literal prints it.\<close>

fun num_to_string :: "nat \<Rightarrow> jsstring" where
  "num_to_string n =
     (if n < 10 then [of_nat (48 + n)]
      else num_to_string (n div 10) @ [of_nat (48 + n mod 10)])"

declare num_to_string.simps [simp del]

section \<open>String primitives of the platform\<close>

text \<open>
  The characters that \<^verbatim>\<open>String.prototype.trim\<close> strips and that \<^verbatim>\<open>\s\<close> matches in a
  regular expression: the WhiteSpace and LineTerminator code points of ECMAScript.
\<close>

definition is_js_space :: "jschar \<Rightarrow> bool" where
  "is_js_space c =
     (c = 0x09 \<or> c = 0x0A \<or> c = 0x0B \<or> c = 0x0C \<or> c = 0x0D \<or> c = 0x20 \<or> c = 0xA0
      \<or> c = 0x1680 \<or> (0x2000 \<le> c \<and> c \<le> 0x200A) \<or> c = 0x2028 \<or> c = 0x2029
      \<or> c = 0x202F \<or> c = 0x205F \<or> c = 0x3000 \<or> c = 0xFEFF)"

definition trim :: "jsstring \<Rightarrow> jsstring" where
  "trim s = rev (dropWhile is_js_space (rev (dropWhile is_js_space s)))"

text \<open>
  \<^verbatim>\<open>s.replace(/pat/g, rep)\<close> and \<^verbatim>\<open>s.replaceAll(pat, rep)\<close> for a pattern \<open>pat\<close> that is
  a non-empty literal text: every occurrence, found from left to right without overlap,
  is replaced.
\<close>

fun replace_all :: "jsstring \<Rightarrow> jsstring \<Rightarrow> jsstring \<Rightarrow> jsstring" where
  "replace_all pat rep [] = []"
| "replace_all pat rep (c # cs) =
     (if startsWith (c # cs) pat
      then rep @ replace_all pat rep (drop (length pat - 1) cs)
      else c # replace_all pat rep cs)"

text \<open>
  \<^verbatim>\<open>s.substring(a, b)\<close> for non-negative integers: both ends are clamped to the length
  and swapped when \<open>b < a\<close>. \<^verbatim>\<open>s.substring(a)\<close> is \<open>drop a s\<close>.
\<close>

definition substring :: "jsstring \<Rightarrow> nat \<Rightarrow> nat \<Rightarrow> jsstring" where
  "substring s a b =
     (let a' = min a (length s); b' = min b (length s)
      in take (max a' b' - min a' b') (drop (min a' b') s))"

text \<open>
  The first match of a regular expression in a string, as \<^verbatim>\<open>s.match(re)\<close> finds it for
  a non-global \<open>re\<close>: \<open>m\<close> gives, for a text, the length of the match that starts at its
  first character, if there is one. The result is the match's index and length.
\<close>

fun regex_search :: "(jsstring \<Rightarrow> nat option) \<Rightarrow> jsstring \<Rightarrow> nat \<Rightarrow> (nat \<times> nat) option" where
  "regex_search m [] i = (case m [] of None \<Rightarrow> None | Some l \<Rightarrow> Some (i, l))"
| "regex_search m (c # cs) i =
     (case m (c # cs) of None \<Rightarrow> regex_search m cs (i + 1) | Some l \<Rightarrow> Some (i, l))"

text \<open>
  The two expressions \<^verbatim>\<open>/"slides"\s*:\s*\[/\<close> and \<^verbatim>\<open>/"content"\s*:\s*"/\<close>: a quoted key,
  white space, a colon, white space and an opening character. The greedy \<^verbatim>\<open>\s*\<close> never
  has to give characters back, since neither the colon nor the opener is white space.
\<close>

definition match_key_opener :: "jsstring \<Rightarrow> jschar \<Rightarrow> jsstring \<Rightarrow> nat option" where
  "match_key_opener key opener s =
     (if startsWith s key then
        (case dropWhile is_js_space (drop (length key) s) of
           [] \<Rightarrow> None
         | c # r \<Rightarrow>
             if c = COLON then
               (case dropWhile is_js_space r of
                  [] \<Rightarrow> None
                | d # r' \<Rightarrow> if d = opener then Some (length s - length r') else None)
             else None)
      else None)"

section \<open>\<^verbatim>\<open>JSON.parse\<close>\<close>

text \<open>
  The values \<^verbatim>\<open>JSON.parse\<close> produces. An object is the list of its members, one for
  each key. A number is kept as the exact value of its literal; the double that the code
  holds for it is given by \<open>to_double\<close> below.
\<close>

datatype json =
  JNull
| JBool bool
| JNum rat
| JStr jsstring
| JArr "json list"
| JObj "(jsstring \<times> json) list"

text \<open>The white space of the JSON grammar: space, tab, line feed, carriage return.\<close>

definition is_json_ws :: "jschar \<Rightarrow> bool" where
  "is_json_ws c = (c = 0x20 \<or> c = 0x09 \<or> c = 0x0A \<or> c = 0x0D)"

definition skip_ws :: "jsstring \<Rightarrow> jsstring" where
  "skip_ws s = dropWhile is_json_ws s"

definition is_digit :: "jschar \<Rightarrow> bool" where
  "is_digit c = (0x30 \<le> c \<and> c \<le> 0x39)"

definition hex_value :: "jschar \<Rightarrow> nat option" where
  "hex_value c =
     (if 0x30 \<le> c \<and> c \<le> 0x39 then Some (unat c - 0x30)
      else if 0x41 \<le> c \<and> c \<le> 0x46 then Some (unat c - 0x41 + 10)
      else if 0x61 \<le> c \<and> c \<le> 0x66 then Some (unat c - 0x61 + 10)
      else None)"

text \<open>The code unit written by the four hexadecimal digits of a \<^verbatim>\<open>\uXXXX\<close> escape.\<close>

definition hex4 :: "jsstring \<Rightarrow> jschar option" where
  "hex4 ds =
     (case map hex_value ds of
        [Some a, Some b, Some c, Some d] \<Rightarrow> Some (of_nat (((a * 16 + b) * 16 + c) * 16 + d))
      | _ \<Rightarrow> None)"

text \<open>The single-character escapes: \<^verbatim>\<open>\" \\ \/ \b \f \n \r \t\<close>.\<close>

definition simple_escape :: "jschar \<Rightarrow> jschar option" where
  "simple_escape e =
     (if e = DQUOTE then Some DQUOTE
      else if e = BACKSLASH then Some BACKSLASH
      else if e = 0x2F then Some 0x2F
      else if e = 0x62 then Some 0x08
      else if e = 0x66 then Some 0x0C
      else if e = 0x6E then Some 0x0A
      else if e = 0x72 then Some 0x0D
      else if e = 0x74 then Some 0x09
      else None)"

text \<open>
  The characters of a string literal after its opening quote, up to and including the
  closing quote: the decoded string and the rest of the input. A raw control character
  (below U+0020) is an error, and so is an unknown escape.
\<close>

fun parse_chars :: "jsstring \<Rightarrow> (jsstring \<times> jsstring) option" where
  "parse_chars [] = None"
| "parse_chars (c # cs) =
     (if c = DQUOTE then Some ([], cs)
      else if c = BACKSLASH then
        (case cs of
           [] \<Rightarrow> None
         | e # cs' \<Rightarrow>
             if e = 0x75 then
               (case hex4 (take 4 cs') of
                  None \<Rightarrow> None
                | Some u \<Rightarrow>
                    (case parse_chars (drop 4 cs') of
                       None \<Rightarrow> None
                     | Some (t, r) \<Rightarrow> Some (u # t, r)))
             else
               (case simple_escape e of
                  None \<Rightarrow> None
                | Some d \<Rightarrow>
                    (case parse_chars cs' of
                       None \<Rightarrow> None
                     | Some (t, r) \<Rightarrow> Some (d # t, r))))
      else if c < 0x20 then None
      else (case parse_chars cs of None \<Rightarrow> None | Some (t, r) \<Rightarrow> Some (c # t, r)))"

text \<open>The value of a sequence of decimal digits.\<close>

definition digits_value :: "jsstring \<Rightarrow> int" where
  "digits_value ds = foldl (\<lambda>n d. 10 * n + (uint d - 0x30)) 0 ds"

text \<open>
  A number literal: an optional minus sign, an integer part that is \<^verbatim>\<open>0\<close> or starts
  with a non-zero digit, an optional fraction and an optional exponent, both with at
  least one digit.
\<close>

definition parse_int_part :: "jsstring \<Rightarrow> (jsstring \<times> jsstring) option" where
  "parse_int_part s =
     (case s of
        [] \<Rightarrow> None
      | c # cs \<Rightarrow>
          if c = 0x30 then Some ([c], cs)
          else if is_digit c then Some (takeWhile is_digit s, dropWhile is_digit s)
          else None)"

definition parse_frac_part :: "jsstring \<Rightarrow> (jsstring \<times> jsstring) option" where
  "parse_frac_part s =
     (case s of
        [] \<Rightarrow> Some ([], s)
      | c # cs \<Rightarrow>
          if c = 0x2E then
            (if takeWhile is_digit cs = [] then None
             else Some (takeWhile is_digit cs, dropWhile is_digit cs))
          else Some ([], s))"

definition parse_exp_part :: "jsstring \<Rightarrow> (int \<times> jsstring) option" where
  "parse_exp_part s =
     (case s of
        [] \<Rightarrow> Some (0, s)
      | c # cs \<Rightarrow>
          if c = 0x65 \<or> c = 0x45 then
            (let (neg, ds) =
               (case cs of
                  [] \<Rightarrow> (False, cs)
                | g # gs \<Rightarrow> if g = 0x2D then (True, gs) else if g = 0x2B then (False, gs)
                            else (False, cs))
             in if takeWhile is_digit ds = [] then None
                else Some ((if neg then - 1 else 1) * digits_value (takeWhile is_digit ds),
                           dropWhile is_digit ds))
          else Some (0, s))"

definition number_value :: "bool \<Rightarrow> jsstring \<Rightarrow> jsstring \<Rightarrow> int \<Rightarrow> rat" where
  "number_value neg ip fp ex =
     (let m = of_int (digits_value (ip @ fp)) :: rat;
          e = ex - int (length fp);
          v = (if 0 \<le> e then m * 10 ^ nat e else m / 10 ^ nat (- e))
      in if neg then - v else v)"

definition parse_number :: "jsstring \<Rightarrow> (json \<times> jsstring) option" where
  "parse_number s =
     (let (neg, s1) = (case s of [] \<Rightarrow> (False, s) | c # cs \<Rightarrow> if c = 0x2D then (True, cs) else (False, s))
      in case parse_int_part s1 of
           None \<Rightarrow> None
         | Some (ip, s2) \<Rightarrow>
             (case parse_frac_part s2 of
                None \<Rightarrow> None
              | Some (fp, s3) \<Rightarrow>
                  (case parse_exp_part s3 of
                     None \<Rightarrow> None
                   | Some (ex, s4) \<Rightarrow> Some (JNum (number_value neg ip fp ex), s4))))"

definition parse_literal :: "jsstring \<Rightarrow> (json \<times> jsstring) option" where
  "parse_literal s =
     (if startsWith s (js ''true'') then Some (JBool True, drop 4 s)
      else if startsWith s (js ''false'') then Some (JBool False, drop 5 s)
      else if startsWith s (js ''null'') then Some (JNull, drop 4 s)
      else parse_number s)"

text \<open>
  \<^verbatim>\<open>JSON.parse\<close> defines one property per key: a key that is written again keeps its
  place among the members and takes the later value. (The members are kept in the order
  of their first occurrence; the code under study reads properties by name and never
  enumerates a parsed object.)
\<close>

fun put_member :: "jsstring \<Rightarrow> json \<Rightarrow> (jsstring \<times> json) list \<Rightarrow> (jsstring \<times> json) list" where
  "put_member k v [] = [(k, v)]"
| "put_member k v ((k', v') # ms) =
     (if k' = k then (k, v) # ms else (k', v') # put_member k v ms)"

text \<open>
  The recursive descent over values. \<open>parse_elements\<close> reads the elements of an array
  after its opening bracket (or after a comma), \<open>parse_members\<close> the members of an
  object; both collect what they have read so far. The tests \<open>length _ < length s\<close>
  make the recursion visibly well-founded; they always succeed, so that the functions
  satisfy the equations without them (\<open>parse_elements_unguarded\<close> and
  \<open>parse_members_unguarded\<close> below).
\<close>

function parse_value :: "jsstring \<Rightarrow> (json \<times> jsstring) option"
  and parse_elements :: "jsstring \<Rightarrow> json list \<Rightarrow> (json list \<times> jsstring) option"
  and parse_members ::
    "jsstring \<Rightarrow> (jsstring \<times> json) list \<Rightarrow> ((jsstring \<times> json) list \<times> jsstring) option"
where
  "parse_value s =
     (case skip_ws s of
        [] \<Rightarrow> None
      | c # cs \<Rightarrow>
          if c = LBRACE then
            (case skip_ws cs of
               [] \<Rightarrow> None
             | d # ds \<Rightarrow>
                 if d = RBRACE then Some (JObj [], ds)
                 else (case parse_members (d # ds) [] of
                         None \<Rightarrow> None
                       | Some (ms, r) \<Rightarrow> Some (JObj ms, r)))
          else if c = LBRACKET then
            (case skip_ws cs of
               [] \<Rightarrow> None
             | d # ds \<Rightarrow>
                 if d = RBRACKET then Some (JArr [], ds)
                 else (case parse_elements (d # ds) [] of
                         None \<Rightarrow> None
                       | Some (vs, r) \<Rightarrow> Some (JArr vs, r)))
          else if c = DQUOTE then
            (case parse_chars cs of None \<Rightarrow> None | Some (t, r) \<Rightarrow> Some (JStr t, r))
          else parse_literal (c # cs))"
| "parse_elements s acc =
     (case parse_value s of
        None \<Rightarrow> None
      | Some (v, r) \<Rightarrow>
          (case skip_ws r of
             [] \<Rightarrow> None
           | c # cs \<Rightarrow>
               if c = COMMA then
                 (if length cs < length s then parse_elements cs (acc @ [v]) else None)
               else if c = RBRACKET then Some (acc @ [v], cs)
               else None))"
| "parse_members s acc =
     (case skip_ws s of
        [] \<Rightarrow> None
      | q # cs \<Rightarrow>
          if q = DQUOTE then
            (case parse_chars cs of
               None \<Rightarrow> None
             | Some (k, r) \<Rightarrow>
                 (case skip_ws r of
                    [] \<Rightarrow> None
                  | c1 # r1 \<Rightarrow>
                      if c1 = COLON \<and> length r1 < length s then
                        (case parse_value r1 of
                           None \<Rightarrow> None
                         | Some (v, r2) \<Rightarrow>
                             (case skip_ws r2 of
                                [] \<Rightarrow> None
                              | c2 # r3 \<Rightarrow>
                                  if c2 = COMMA then
                                    (if length r3 < length s
                                     then parse_members r3 (put_member k v acc) else None)
                                  else if c2 = RBRACE then Some (put_member k v acc, r3)
                                  else None))
                      else None))
          else None)"
  by pat_completeness auto

termination
proof (relation "inv_image (less_than <*lex*> less_than)
    (\<lambda>x. case x of
        Inl s \<Rightarrow> (length s, 0::nat)
      | Inr (Inl (s, acc)) \<Rightarrow> (length s, 1)
      | Inr (Inr (s, acc)) \<Rightarrow> (length s, 1))", goal_cases)
  case 1
  then show ?case by (intro wf_inv_image wf_lex_prod wf_less_than)
next
  case (2 s c cs d ds)
  have "length (skip_ws cs) \<le> length cs" "length (skip_ws s) \<le> length s"
    by (simp_all add: skip_ws_def length_dropWhile_le)
  with 2 show ?case by simp
next
  case (3 s c cs d ds)
  have "length (skip_ws cs) \<le> length cs" "length (skip_ws s) \<le> length s"
    by (simp_all add: skip_ws_def length_dropWhile_le)
  with 3 show ?case by simp
qed simp_all

declare parse_value.simps [simp del] parse_elements.simps [simp del]
  parse_members.simps [simp del]

text \<open>\<^verbatim>\<open>JSON.parse(text)\<close>: one value, surrounded by white space only; \<open>None\<close> is the
  \<^verbatim>\<open>SyntaxError\<close>.\<close>

definition JSON_parse :: "jsstring \<Rightarrow> json option" where
  "JSON_parse s =
     (case parse_value s of
        None \<Rightarrow> None
      | Some (v, r) \<Rightarrow> if skip_ws r = [] then Some v else None)"

subsection \<open>Reading parsed values\<close>

text \<open>
  \<^verbatim>\<open>v.key\<close> for a key that no prototype defines: the member of an object, \<^verbatim>\<open>undefined\<close>
  (here \<open>None\<close>) on an array, string, number or boolean, and a \<^verbatim>\<open>TypeError\<close> on
  \<^verbatim>\<open>null\<close>.
\<close>

datatype type_error = TypeError

definition js_get :: "json \<Rightarrow> jsstring \<Rightarrow> type_error + json option" where
  "js_get v key =
     (case v of
        JNull \<Rightarrow> Inl TypeError
      | JObj ms \<Rightarrow> Inr (map_of ms key)
      | _ \<Rightarrow> Inr None)"

text \<open>
  A number literal denotes the IEEE 754 double nearest to its decimal value, ties going to
  the even significand; a literal beyond the largest double by half a unit in the last
  place or more denotes an infinity. \<open>JNum\<close> keeps the exact value of the literal, and
  \<open>to_double\<close> gives the double that the code holds: its value, or \<open>None\<close> for an
  infinity (whose sign is the sign of the literal). \<open>bit_length n\<close> is the number of binary
  digits of a positive integer, and \<open>floor_log2 a\<close> the exponent \<open>e\<close> with
  \<open>2\<^sup>e \<le> a < 2\<^sup>e\<^sup>+\<^sup>1\<close> of a positive number.
\<close>

function bit_length :: "int \<Rightarrow> int" where
  "bit_length n = (if n \<le> 0 then 0 else 1 + bit_length (n div 2))"
  by pat_completeness auto

termination
  by (relation "measure nat") auto

declare bit_length.simps [simp del]

definition floor_log2 :: "rat \<Rightarrow> int" where
  "floor_log2 a =
     (let (p, q) = quotient_of a;
          e = bit_length p - bit_length q
      in if 2 powi e \<le> a then e else e - 1)"

definition round_half_even :: "rat \<Rightarrow> int" where
  "round_half_even x =
     (let f = \<lfloor>x\<rfloor>; d = x - of_int f
      in if d < 1 / 2 then f else if 1 / 2 < d then f + 1 else if even f then f else f + 1)"

definition to_double :: "rat \<Rightarrow> rat option" where
  "to_double r =
     (if r = 0 then Some 0
      else
        (let a = \<bar>r\<bar>;
             e = max (floor_log2 a) (- 1022);
             ulp = 2 powi (e - 52);
             m = of_int (round_half_even (a / ulp)) * ulp
         in if 2 powi 1024 \<le> m then None else Some (sgn r * m)))"

text \<open>Truthiness; \<open>None\<close> is \<^verbatim>\<open>undefined\<close>. A number is falsy when it is a zero.\<close>

definition truthy :: "json option \<Rightarrow> bool" where
  "truthy v =
     (case v of
        None \<Rightarrow> False
      | Some JNull \<Rightarrow> False
      | Some (JBool b) \<Rightarrow> b
      | Some (JNum r) \<Rightarrow> to_double r \<noteq> Some 0
      | Some (JStr s) \<Rightarrow> s \<noteq> []
      | Some (JArr vs) \<Rightarrow> True
      | Some (JObj ms) \<Rightarrow> True)"

text \<open>
  \<^verbatim>\<open>a === b\<close> for two values read from the results of two different \<^verbatim>\<open>JSON.parse\<close>
  calls: primitives are compared by value (numbers as doubles, the two zeros being
  equal), while two arrays or two objects are different references and never equal.
\<close>

definition strict_eq :: "json option \<Rightarrow> json option \<Rightarrow> bool" where
  "strict_eq a b =
     (case (a, b) of
        (None, None) \<Rightarrow> True
      | (Some JNull, Some JNull) \<Rightarrow> True
      | (Some (JBool x), Some (JBool y)) \<Rightarrow> x = y
      | (Some (JNum x), Some (JNum y)) \<Rightarrow>
          to_double x = to_double y \<and> (to_double x = None \<longrightarrow> sgn x = sgn y)
      | (Some (JStr x), Some (JStr y)) \<Rightarrow> x = y
      | _ \<Rightarrow> False)"

section \<open>The stream parser: \<^verbatim>\<open>parseLiveStream\<close> (services/streamParser.ts)\<close>

subsection \<open>Cleaning\<close>

text \<open>
  \<^verbatim>\<open>stream.replace(/```json/g, "").replace(/```/g, "").trim()\<close>
\<close>

definition clean_stream :: "jsstring \<Rightarrow> jsstring" where
  "clean_stream stream = trim (replace_all (js ''```'') [] (replace_all (js ''```json'') [] stream))"

subsection \<open>Phase 1: fully completed batches\<close>

record phase1_state =
  braceCount :: int
  inString :: bool
  currentObjectStartIndex :: int
  lastValidBatchEndIndex :: nat
  p1_slides :: "json list"

text \<open>
  The closure of a root-level object at index \<open>i\<close>: the \<^verbatim>\<open>try\<close> block parses the text of
  the object, appends the members of its \<^verbatim>\<open>slides\<close> array, if it has one, and moves the
  cursor behind the object; a \<^verbatim>\<open>SyntaxError\<close> leaves slides and cursor as they are. Then
  the start index is reset.
\<close>

definition close_batch :: "jsstring \<Rightarrow> nat \<Rightarrow> phase1_state \<Rightarrow> phase1_state" where
  "close_batch cleanStream i st =
     (let batchStr = substring cleanStream (nat (currentObjectStartIndex st)) (i + 1);
          st' = (case JSON_parse batchStr of
                   None \<Rightarrow> st
                 | Some batch \<Rightarrow>
                     (if truthy (Some batch) then
                        (case js_get batch (js ''slides'') of
                           Inr (Some (JArr slides)) \<Rightarrow> st\<lparr>p1_slides := p1_slides st @ slides\<rparr>
                         | _ \<Rightarrow> st)
                      else st)
                     \<lparr>lastValidBatchEndIndex := i + 1\<rparr>)
      in st'\<lparr>currentObjectStartIndex := - 1\<rparr>)"

text \<open>The body of the loop for a character that is not skipped as an escape.\<close>

definition phase1_char :: "jsstring \<Rightarrow> nat \<Rightarrow> jschar \<Rightarrow> phase1_state \<Rightarrow> phase1_state" where
  "phase1_char cleanStream i char st =
     (let st1 = (if char = DQUOTE then st\<lparr>inString := \<not> inString st\<rparr> else st)
      in if \<not> inString st1 then
           (if char = LBRACE then
              st1\<lparr>currentObjectStartIndex :=
                    (if braceCount st1 = 0 then int i else currentObjectStartIndex st1),
                  braceCount := braceCount st1 + 1\<rparr>
            else if char = RBRACE then
              (let st2 = st1\<lparr>braceCount := braceCount st1 - 1\<rparr>
               in if braceCount st2 = 0 \<and> currentObjectStartIndex st2 \<noteq> - 1
                  then close_batch cleanStream i st2
                  else st2)
            else st1)
         else st1)"

function phase1_loop :: "jsstring \<Rightarrow> nat \<Rightarrow> phase1_state \<Rightarrow> phase1_state" where
  "phase1_loop cleanStream i st =
     (if i < length cleanStream then
        (let char = cleanStream ! i
         in if char = BACKSLASH \<and> i + 1 < length cleanStream
            then phase1_loop cleanStream (i + 2) st
            else phase1_loop cleanStream (i + 1) (phase1_char cleanStream i char st))
      else st)"
  by pat_completeness auto

termination
  by (relation "measure (\<lambda>(cleanStream, i, st). length cleanStream - i)") auto

declare phase1_loop.simps [simp del]

definition phase1_init :: phase1_state where
  "phase1_init =
     \<lparr>braceCount = 0, inString = False, currentObjectStartIndex = - 1,
      lastValidBatchEndIndex = 0, p1_slides = []\<rparr>"

subsection \<open>Phase 2: closed slides inside the open batch\<close>

record phase2_state =
  slideBraceCount :: int
  slideStartIndex :: int
  slideInString :: bool
  lastParsedSlideEnd :: nat
  p2_slides :: "json list"

text \<open>
  \<^verbatim>\<open>completeSlides.some(s => s.title === slide.title)\<close>: the elements are visited in
  order until one matches; reading \<^verbatim>\<open>title\<close> of a \<^verbatim>\<open>null\<close> element throws.
\<close>

fun some_title_eq :: "json list \<Rightarrow> json option \<Rightarrow> type_error + bool" where
  "some_title_eq [] t = Inr False"
| "some_title_eq (s # ss) t =
     (case js_get s (js ''title'') of
        Inl e \<Rightarrow> Inl e
      | Inr st \<Rightarrow> if strict_eq st t then Inr True else some_title_eq ss t)"

text \<open>
  The \<^verbatim>\<open>try\<close> block for a slide candidate that closes at index \<open>j\<close>, followed by the
  reset of the start index. Every exception (a \<^verbatim>\<open>SyntaxError\<close> of the parse, a
  \<^verbatim>\<open>TypeError\<close> of a property read) is swallowed by the empty \<^verbatim>\<open>catch\<close>.
\<close>

definition close_slide :: "jsstring \<Rightarrow> nat \<Rightarrow> phase2_state \<Rightarrow> phase2_state" where
  "close_slide slidesString j st =
     (let potentialSlideStr = substring slidesString (nat (slideStartIndex st)) (j + 1);
          st' = (case JSON_parse potentialSlideStr of
                   None \<Rightarrow> st
                 | Some slide \<Rightarrow>
                     (case js_get slide (js ''title'') of
                        Inl e \<Rightarrow> st
                      | Inr title \<Rightarrow>
                          if \<not> truthy title then st
                          else (case js_get slide (js ''content'') of
                                  Inl e \<Rightarrow> st
                                | Inr content \<Rightarrow>
                                    if \<not> truthy content then st
                                    else (case some_title_eq (p2_slides st) title of
                                            Inl e \<Rightarrow> st
                                          | Inr exists \<Rightarrow>
                                              (if \<not> exists
                                               then st\<lparr>p2_slides := p2_slides st @ [slide]\<rparr>
                                               else st)
                                              \<lparr>lastParsedSlideEnd := j + 1\<rparr>))))
      in st'\<lparr>slideStartIndex := - 1\<rparr>)"

definition phase2_char :: "jsstring \<Rightarrow> nat \<Rightarrow> jschar \<Rightarrow> phase2_state \<Rightarrow> phase2_state" where
  "phase2_char slidesString j char st =
     (let st1 = (if char = DQUOTE then st\<lparr>slideInString := \<not> slideInString st\<rparr> else st)
      in if \<not> slideInString st1 then
           (if char = LBRACE then
              st1\<lparr>slideStartIndex :=
                    (if slideBraceCount st1 = 0 then int j else slideStartIndex st1),
                  slideBraceCount := slideBraceCount st1 + 1\<rparr>
            else if char = RBRACE then
              (let st2 = st1\<lparr>slideBraceCount := slideBraceCount st1 - 1\<rparr>
               in if slideBraceCount st2 = 0 \<and> slideStartIndex st2 \<noteq> - 1
                  then close_slide slidesString j st2
                  else st2)
            else st1)
         else st1)"

function phase2_loop :: "jsstring \<Rightarrow> nat \<Rightarrow> phase2_state \<Rightarrow> phase2_state" where
  "phase2_loop slidesString j st =
     (if j < length slidesString then
        (let char = slidesString ! j
         in if char = BACKSLASH
            then phase2_loop slidesString (j + 2) st
            else phase2_loop slidesString (j + 1) (phase2_char slidesString j char st))
      else st)"
  by pat_completeness auto

termination
  by (relation "measure (\<lambda>(slidesString, j, st). length slidesString - j)") auto

declare phase2_loop.simps [simp del]

definition phase2_init :: "json list \<Rightarrow> phase2_state" where
  "phase2_init completeSlides =
     \<lparr>slideBraceCount = 0, slideStartIndex = - 1, slideInString = False,
      lastParsedSlideEnd = 0, p2_slides = completeSlides\<rparr>"

subsection \<open>Phase 3: the HTML in progress\<close>

text \<open>
  The three literal replacements that undo the JSON escapes of the partial content, in
  the order of the source: \<^verbatim>\<open>\"\<close>, then \<^verbatim>\<open>\n\<close>, then \<^verbatim>\<open>\\\<close>.
\<close>

definition unescape_partial :: "jsstring \<Rightarrow> jsstring" where
  "unescape_partial partialHtml =
     replace_all [BACKSLASH, BACKSLASH] [BACKSLASH]
       (replace_all [BACKSLASH, 0x6E] [0x0A]
          (replace_all [BACKSLASH, DQUOTE] [DQUOTE] partialHtml))"

definition in_progress_html :: "jsstring \<Rightarrow> jsstring" where
  \<open>in_progress_html activeSlidePart =
     (case regex_search (match_key_opener (js ''"content"'') DQUOTE) activeSlidePart 0 of
        None \<Rightarrow> []
      | Some (index, len) \<Rightarrow>
          (let partialHtml = unescape_partial (drop (index + len) activeSlidePart)
           in if js_includes partialHtml [GT] then
                (if \<not> js_includes partialHtml (js ''</div>'') then partialHtml @ js ''</div>''
                 else partialHtml)
              else []))\<close>

subsection \<open>The parser\<close>

record parse_result =
  completeSlides :: "json list"
  inProgressHtml :: jsstring

definition parseLiveStream :: "jsstring \<Rightarrow> bool \<Rightarrow> parse_result" where
  \<open>parseLiveStream stream isStreamComplete =
     (let cleanStream = clean_stream stream;
          st1 = phase1_loop cleanStream 0 phase1_init;
          remainingStream = drop (lastValidBatchEndIndex st1) cleanStream
      in case regex_search (match_key_opener (js ''"slides"'') LBRACKET) remainingStream 0 of
           None \<Rightarrow> \<lparr>completeSlides = p1_slides st1, inProgressHtml = []\<rparr>
         | Some (index, len) \<Rightarrow>
             (let slidesString = drop (index + len) remainingStream;
                  st2 = phase2_loop slidesString 0 (phase2_init (p1_slides st1))
              in \<lparr>completeSlides = p2_slides st2,
                  inProgressHtml =
                    (if \<not> isStreamComplete
                     then in_progress_html (drop (lastParsedSlideEnd st2) slidesString)
                     else [])\<rparr>))\<close>

section \<open>The final content transforms (services/streamParser.ts)\<close>

subsection \<open>\<^verbatim>\<open>encodeURIComponent\<close> and \<^verbatim>\<open>decodeURIComponent\<close>\<close>

datatype uri_error = URIError

text \<open>The characters \<^verbatim>\<open>encodeURIComponent\<close> leaves as they are: ASCII letters and digits
  and \<^verbatim>\<open>- _ . ! ~ * ' ( )\<close>.\<close>

definition is_unreserved :: "jschar \<Rightarrow> bool" where
  "is_unreserved c =
     ((0x41 \<le> c \<and> c \<le> 0x5A) \<or> (0x61 \<le> c \<and> c \<le> 0x7A) \<or> (0x30 \<le> c \<and> c \<le> 0x39)
      \<or> c = 0x2D \<or> c = 0x5F \<or> c = 0x2E \<or> c = 0x21 \<or> c = 0x7E \<or> c = 0x2A
      \<or> c = SQUOTE \<or> c = 0x28 \<or> c = 0x29)"

text \<open>The UTF-8 octets of a code point.\<close>

definition utf8_encode :: "nat \<Rightarrow> nat list" where
  "utf8_encode cp =
     (if cp < 0x80 then [cp]
      else if cp < 0x800 then [0xC0 + cp div 64, 0x80 + cp mod 64]
      else if cp < 0x10000 then
        [0xE0 + cp div 4096, 0x80 + (cp div 64) mod 64, 0x80 + cp mod 64]
      else
        [0xF0 + cp div 262144, 0x80 + (cp div 4096) mod 64, 0x80 + (cp div 64) mod 64,
         0x80 + cp mod 64])"

definition hex_upper :: "nat \<Rightarrow> jschar" where
  "hex_upper d = (if d < 10 then of_nat (0x30 + d) else of_nat (0x41 + (d - 10)))"

text \<open>An octet as a percent sign and two upper-case hexadecimal digits.\<close>

definition percent_octet :: "nat \<Rightarrow> jsstring" where
  "percent_octet b = [PERCENT, hex_upper (b div 16), hex_upper (b mod 16)]"

definition is_high_surrogate :: "jschar \<Rightarrow> bool" where
  "is_high_surrogate c = (0xD800 \<le> c \<and> c \<le> 0xDBFF)"

definition is_low_surrogate :: "jschar \<Rightarrow> bool" where
  "is_low_surrogate c = (0xDC00 \<le> c \<and> c \<le> 0xDFFF)"

text \<open>
  \<^verbatim>\<open>encodeURIComponent\<close>: an unreserved character is copied; any other code point (a code
  unit or a surrogate pair) is written as the percent-encoded octets of its UTF-8 form; a
  lone surrogate throws a \<^verbatim>\<open>URIError\<close>.
\<close>

fun encodeURIComponent :: "jsstring \<Rightarrow> uri_error + jsstring" where
  "encodeURIComponent [] = Inr []"
| "encodeURIComponent (c # cs) =
     (if is_unreserved c then
        (case encodeURIComponent cs of Inl e \<Rightarrow> Inl e | Inr r \<Rightarrow> Inr (c # r))
      else if is_high_surrogate c then
        (case cs of
           [] \<Rightarrow> Inl URIError
         | d # ds \<Rightarrow>
             if is_low_surrogate d then
               (case encodeURIComponent ds of
                  Inl e \<Rightarrow> Inl e
                | Inr r \<Rightarrow>
                    Inr (concat (map percent_octet
                           (utf8_encode ((unat c - 0xD800) * 0x400 + (unat d - 0xDC00) + 0x10000)))
                         @ r))
             else Inl URIError)
      else if is_low_surrogate c then Inl URIError
      else
        (case encodeURIComponent cs of
           Inl e \<Rightarrow> Inl e
         | Inr r \<Rightarrow> Inr (concat (map percent_octet (utf8_encode (unat c))) @ r)))"

text \<open>The octet written by a percent sign and two hexadecimal digits at the head of a
  text, and the rest of the text.\<close>

definition percent_group :: "jsstring \<Rightarrow> (nat \<times> jsstring) option" where
  "percent_group s =
     (case s of
        p # h1 # h2 # r \<Rightarrow>
          if p = PERCENT then
            (case (hex_value h1, hex_value h2) of
               (Some a, Some b) \<Rightarrow> Some (a * 16 + b, r)
             | _ \<Rightarrow> None)
          else None
      | _ \<Rightarrow> None)"

text \<open>\<open>n\<close> continuation octets (binary \<open>10xxxxxx\<close>), each percent-encoded.\<close>

fun continuation_octets :: "nat \<Rightarrow> jsstring \<Rightarrow> (nat list \<times> jsstring) option" where
  "continuation_octets 0 s = Some ([], s)"
| "continuation_octets (Suc n) s =
     (case percent_group s of
        None \<Rightarrow> None
      | Some (b, r) \<Rightarrow>
          if 0x80 \<le> b \<and> b < 0xC0 then
            (case continuation_octets n r of
               None \<Rightarrow> None
             | Some (bs, r') \<Rightarrow> Some (b # bs, r'))
          else None)"

text \<open>
  The code point of a multi-octet UTF-8 sequence with the given lead octet, if the
  sequence is well formed: not over-long, not a surrogate, at most U+10FFFF.
\<close>

definition utf8_decode :: "nat \<Rightarrow> nat list \<Rightarrow> nat option" where
  "utf8_decode lead conts =
     (let v = foldl (\<lambda>a b. a * 64 + (b - 0x80))
                (if lead < 0xE0 then lead - 0xC0 else if lead < 0xF0 then lead - 0xE0
                 else lead - 0xF0) conts
      in if length conts = 1 then (if 0x80 \<le> v then Some v else None)
         else if length conts = 2 then
           (if 0x800 \<le> v \<and> \<not> (0xD800 \<le> v \<and> v \<le> 0xDFFF) then Some v else None)
         else (if 0x10000 \<le> v \<and> v \<le> 0x10FFFF then Some v else None))"

definition utf16_encode :: "nat \<Rightarrow> jsstring" where
  "utf16_encode v =
     (if v < 0x10000 then [of_nat v]
      else [of_nat (0xD800 + (v - 0x10000) div 0x400), of_nat (0xDC00 + (v - 0x10000) mod 0x400)])"

text \<open>
  \<^verbatim>\<open>decodeURIComponent\<close>: every percent-encoded UTF-8 sequence is replaced by its code
  point; a percent sign that does not start a well-formed sequence throws a
  \<^verbatim>\<open>URIError\<close>.
\<close>

function decodeURIComponent :: "jsstring \<Rightarrow> uri_error + jsstring" where
  "decodeURIComponent s =
     (case s of
        [] \<Rightarrow> Inr []
      | c # cs \<Rightarrow>
          if c \<noteq> PERCENT then
            (case decodeURIComponent cs of Inl e \<Rightarrow> Inl e | Inr r \<Rightarrow> Inr (c # r))
          else
            (case percent_group s of
               None \<Rightarrow> Inl URIError
             | Some (b, r) \<Rightarrow>
                 if b < 0x80 then
                   (if length r < length s then
                      (case decodeURIComponent r of
                         Inl e \<Rightarrow> Inl e
                       | Inr r' \<Rightarrow> Inr (of_nat b # r'))
                    else Inl URIError)
                 else if b < 0xC0 \<or> 0xF8 \<le> b then Inl URIError
                 else
                   (case continuation_octets (if b < 0xE0 then 1 else if b < 0xF0 then 2 else 3) r of
                      None \<Rightarrow> Inl URIError
                    | Some (bs, r') \<Rightarrow>
                        (case utf8_decode b bs of
                           None \<Rightarrow> Inl URIError
                         | Some v \<Rightarrow>
                             if length r' < length s then
                               (case decodeURIComponent r' of
                                  Inl e \<Rightarrow> Inl e
                                | Inr r'' \<Rightarrow> Inr (utf16_encode v @ r''))
                             else Inl URIError))))"
  by pat_completeness auto

termination
  by (relation "measure length") auto

declare decodeURIComponent.simps [simp del]

subsection \<open>\<^verbatim>\<open>transformPollinationsURLs\<close>\<close>

text \<open>
  The expression \<^verbatim>\<open>/https?:\/\/gen\.pollinations\.ai\/image\/([^\\"\s>]+)/gi\<close>. Under the
  flag \<^verbatim>\<open>i\<close> (without \<^verbatim>\<open>u\<close>) a letter of the pattern matches exactly its two ASCII
  cases.
\<close>

definition to_lower_ascii :: "jschar \<Rightarrow> jschar" where
  "to_lower_ascii c = (if 0x41 \<le> c \<and> c \<le> 0x5A then c + 0x20 else c)"

text \<open>\<open>s\<close> starts with the lower-case text \<open>p\<close>, in any letter case.\<close>

fun startsWith_ci :: "jsstring \<Rightarrow> jsstring \<Rightarrow> bool" where
  "startsWith_ci s [] = True"
| "startsWith_ci [] (p # ps) = False"
| "startsWith_ci (c # cs) (p # ps) =
     (if to_lower_ascii c = p then startsWith_ci cs ps else False)"

text \<open>The characters of the captured group: anything but backslash, quote, white space
  and \<^verbatim>\<open>>\<close>.\<close>

definition is_url_char :: "jschar \<Rightarrow> bool" where
  "is_url_char c = (c \<noteq> BACKSLASH \<and> c \<noteq> DQUOTE \<and> \<not> is_js_space c \<and> c \<noteq> GT)"

text \<open>
  A match at the head of a text: the length of the whole match and the captured group
  \<open>raw\<close>, the longest run of admissible characters behind the prefix (at least one).
\<close>

definition match_url :: "jsstring \<Rightarrow> (nat \<times> jsstring) option" where
  "match_url s =
     (let n = (if startsWith_ci s (js ''https://gen.pollinations.ai/image/'') then Some 34
               else if startsWith_ci s (js ''http://gen.pollinations.ai/image/'') then Some 33
               else None)
      in case n of
           None \<Rightarrow> None
         | Some n \<Rightarrow>
             (let raw = takeWhile is_url_char (drop n s)
              in if raw = [] then None else Some (n + length raw, raw)))"

text \<open>The replacement function of the source, for one captured group.\<close>

definition pollinations_url :: "jsstring \<Rightarrow> jsstring \<Rightarrow> uri_error + jsstring" where
  "pollinations_url apiKey raw =
     (let desc = replace_all [0x5F] [0x20] raw
      in case decodeURIComponent desc of
           Inl e \<Rightarrow> Inl e
         | Inr desc' \<Rightarrow>
             (case encodeURIComponent desc' of
                Inl e \<Rightarrow> Inl e
              | Inr encoded \<Rightarrow>
                  Inr (js ''https://gen.pollinations.ai/image/'' @ encoded
                       @ js ''?model=flux&key='' @ apiKey)))"

text \<open>
  \<^verbatim>\<open>input.replaceAll(urlRegex, ...)\<close>: the matches are found from left to right, the
  search resuming behind each match; an exception of the replacement function ends the
  call.
\<close>

fun replace_urls :: "jsstring \<Rightarrow> jsstring \<Rightarrow> uri_error + jsstring" where
  "replace_urls apiKey [] = Inr []"
| "replace_urls apiKey (c # cs) =
     (case match_url (c # cs) of
        None \<Rightarrow>
          (case replace_urls apiKey cs of Inl e \<Rightarrow> Inl e | Inr r \<Rightarrow> Inr (c # r))
      | Some (n, raw) \<Rightarrow>
          (case pollinations_url apiKey raw of
             Inl e \<Rightarrow> Inl e
           | Inr url \<Rightarrow>
               (case replace_urls apiKey (drop (n - 1) cs) of
                  Inl e \<Rightarrow> Inl e
                | Inr r \<Rightarrow> Inr (url @ r))))"

definition transformPollinationsURLs :: "jsstring \<Rightarrow> jsstring \<Rightarrow> uri_error + jsstring" where
  "transformPollinationsURLs input apiKey = replace_urls apiKey input"

subsection \<open>\<^verbatim>\<open>convertQuickChartTags\<close>\<close>

text \<open>
  The expression \<^verbatim>\<open>/<quickchart([\s\S]+?)>/g\<close> at the head of a text: behind the tag name
  comes at least one character, then, lazily, everything up to the next \<^verbatim>\<open>>\<close>. The
  result is the length of the match and the captured attribute string.
\<close>

definition match_quickchart :: "jsstring \<Rightarrow> (nat \<times> jsstring) option" where
  "match_quickchart s =
     (if startsWith s (js ''<quickchart'') then
        (case drop 11 s of
           [] \<Rightarrow> None
         | c # r \<Rightarrow>
             if GT \<in> set r
             then Some (13 + length (takeWhile (\<lambda>x. x \<noteq> GT) r), c # takeWhile (\<lambda>x. x \<noteq> GT) r)
             else None)
      else None)"

text \<open>The characters of \<^verbatim>\<open>[\w-]\<close>.\<close>

definition is_name_char :: "jschar \<Rightarrow> bool" where
  "is_name_char c =
     ((0x41 \<le> c \<and> c \<le> 0x5A) \<or> (0x61 \<le> c \<and> c \<le> 0x7A) \<or> (0x30 \<le> c \<and> c \<le> 0x39)
      \<or> c = 0x5F \<or> c = 0x2D)"

text \<open>
  The expression \<^verbatim>\<open>/([\w-]+)\s*=\s*(["'])([\s\S]*?)\2/g\<close> at the head of a text: a name,
  an equals sign between optional white space, and a value between two equal quote
  characters. The result is the name, the value and the rest of the text.
\<close>

definition match_attribute :: "jsstring \<Rightarrow> (jsstring \<times> jsstring \<times> jsstring) option" where
  "match_attribute s =
     (let name = takeWhile is_name_char s
      in if name = [] then None
         else
           (case dropWhile is_js_space (dropWhile is_name_char s) of
              [] \<Rightarrow> None
            | e # r \<Rightarrow>
                if e = 0x3D then
                  (case dropWhile is_js_space r of
                     [] \<Rightarrow> None
                   | q # v \<Rightarrow>
                       if (q = DQUOTE \<or> q = SQUOTE) \<and> q \<in> set v
                       then Some (name, takeWhile (\<lambda>x. x \<noteq> q) v, tl (dropWhile (\<lambda>x. x \<noteq> q) v))
                       else None)
                else None))"

text \<open>
  The \<^verbatim>\<open>attributes\<close> object: the own properties in creation order. An assignment to an
  existing key keeps its place; the key \<^verbatim>\<open>__proto__\<close> reaches the setter of
  \<^verbatim>\<open>Object.prototype\<close>, which ignores a string, so no property is created.
\<close>

fun assign_attribute ::
  "jsstring \<Rightarrow> jsstring \<Rightarrow> (jsstring \<times> jsstring) list \<Rightarrow> (jsstring \<times> jsstring) list" where
  "assign_attribute k v [] = [(k, v)]"
| "assign_attribute k v ((k', v') # kvs) =
     (if k = k' then (k, v) # kvs else (k', v') # assign_attribute k v kvs)"

definition set_attribute ::
  "jsstring \<Rightarrow> jsstring \<Rightarrow> (jsstring \<times> jsstring) list \<Rightarrow> (jsstring \<times> jsstring) list" where
  "set_attribute k v attributes =
     (if k = js ''__proto__'' then attributes else assign_attribute k v attributes)"

text \<open>The loop \<^verbatim>\<open>while ((attrMatch = attributeRegex.exec(...)) !== null)\<close>: each search
  resumes behind the previous match.\<close>

function collect_attributes ::
  "jsstring \<Rightarrow> (jsstring \<times> jsstring) list \<Rightarrow> (jsstring \<times> jsstring) list" where
  "collect_attributes s attributes =
     (case s of
        [] \<Rightarrow> attributes
      | c # cs \<Rightarrow>
          (case match_attribute s of
             None \<Rightarrow> collect_attributes cs attributes
           | Some (name, val, rest) \<Rightarrow>
               if length rest < length s
               then collect_attributes rest (set_attribute name val attributes)
               else attributes))"
  by pat_completeness auto

termination
  by (relation "measure (\<lambda>(s, attributes). length s)") auto

declare collect_attributes.simps [simp del]

text \<open>
  The order of \<^verbatim>\<open>for (const key in attributes)\<close>: the keys that are array indices (decimal
  numerals without a leading zero, below \<open>2^32 - 1\<close>) in ascending order, then the other keys
  in creation order.
\<close>

definition is_array_index :: "jsstring \<Rightarrow> bool" where
  "is_array_index k =
     (k \<noteq> [] \<and> list_all is_digit k \<and> (k = [0x30] \<or> hd k \<noteq> 0x30)
      \<and> digits_value k < 4294967295)"

definition enumeration_order :: "(jsstring \<times> jsstring) list \<Rightarrow> (jsstring \<times> jsstring) list" where
  "enumeration_order attributes =
     sort_key (\<lambda>(k, v). digits_value k) (filter (\<lambda>(k, v). is_array_index k) attributes)
     @ filter (\<lambda>(k, v). \<not> is_array_index k) attributes"

text \<open>The replacement function of the source, for one tag \<open>match\<close> with its captured
  attribute string.\<close>

definition chart_img_tag :: "jsstring \<Rightarrow> jsstring \<Rightarrow> uri_error + jsstring" where
  \<open>chart_img_tag match attributesString =
     (let cleanedAttributesString =
            replace_all [BACKSLASH, SQUOTE] [SQUOTE]
              (replace_all [BACKSLASH, DQUOTE] [DQUOTE] attributesString);
          attributes = collect_attributes cleanedAttributesString []
      in case map_of attributes (js ''config'') of
           None \<Rightarrow> Inr match
         | Some config \<Rightarrow>
             if config = [] then Inr match
             else
               (case encodeURIComponent (replace_all [SQUOTE] [DQUOTE] config) of
                  Inl e \<Rightarrow> Inl e
                | Inr encodedConfig \<Rightarrow>
                    Inr (js ''<img src="https://quickchart.io/chart?c='' @ encodedConfig @ [DQUOTE]
                         @ concat (map (\<lambda>(key, val).
                                     [0x20] @ key @ [0x3D, DQUOTE]
                                     @ replace_all [DQUOTE] (js ''&quot;'') val @ [DQUOTE])
                                   (filter (\<lambda>(key, val). key \<noteq> js ''config'')
                                      (enumeration_order attributes)))
                         @ [GT])))\<close>

fun replace_charts :: "jsstring \<Rightarrow> uri_error + jsstring" where
  "replace_charts [] = Inr []"
| "replace_charts (c # cs) =
     (case match_quickchart (c # cs) of
        None \<Rightarrow> (case replace_charts cs of Inl e \<Rightarrow> Inl e | Inr r \<Rightarrow> Inr (c # r))
      | Some (n, attributesString) \<Rightarrow>
          (case chart_img_tag (take n (c # cs)) attributesString of
             Inl e \<Rightarrow> Inl e
           | Inr tag \<Rightarrow>
               (case replace_charts (drop (n - 1) cs) of
                  Inl e \<Rightarrow> Inl e
                | Inr r \<Rightarrow> Inr (tag @ r))))"

definition convertQuickChartTags :: "jsstring \<Rightarrow> uri_error + jsstring" where
  "convertQuickChartTags htmlString = replace_charts htmlString"

section \<open>The shape of the texts that \<^verbatim>\<open>JSON.parse\<close> accepts\<close>

definition plain :: "jschar \<Rightarrow> bool" where
  "plain c = (c \<noteq> DQUOTE \<and> c \<noteq> BACKSLASH \<and> c \<noteq> LBRACE \<and> c \<noteq> RBRACE)"

section \<open>The phase-1 scan over complete objects\<close>

fun esc_closed :: "jsstring \<Rightarrow> bool" where
  "esc_closed [] = True"
| "esc_closed [c] = (c \<noteq> BACKSLASH)"
| "esc_closed (c # d # cs) = (if c = BACKSLASH then esc_closed cs else esc_closed (d # cs))"

fun scan1 :: "jsstring \<Rightarrow> jsstring \<Rightarrow> nat \<Rightarrow> phase1_state \<Rightarrow> phase1_state" where
  "scan1 s [] i st = st"
| "scan1 s [c] i st = phase1_char s i c st"
| "scan1 s (c # d # cs) i st =
     (if c = BACKSLASH then scan1 s cs (i + 2) st
      else scan1 s (d # cs) (i + 1) (phase1_char s i c st))"

definition nested1 :: "phase1_state \<Rightarrow> bool" where
  "nested1 st \<longleftrightarrow> 1 \<le> braceCount st \<and> \<not> inString st"

definition neutral1 :: "jsstring \<Rightarrow> bool" where
  "neutral1 p \<longleftrightarrow> esc_closed p \<and> (\<forall>s i st. nested1 st \<longrightarrow> scan1 s p i st = st)"

definition closes_string1 :: "jsstring \<Rightarrow> bool" where
  "closes_string1 p \<longleftrightarrow>
     esc_closed p \<and> (\<forall>s i st. inString st \<longrightarrow> scan1 s p i st = st\<lparr>inString := False\<rparr>)"

definition object_members :: "jsstring \<Rightarrow> (jsstring \<times> json) list option" where
  "object_members b =
     (case b of
        [] \<Rightarrow> None
      | c # cs \<Rightarrow>
          if c = LBRACE then
            (case parse_value b of
               Some (JObj ms, []) \<Rightarrow> Some ms
             | _ \<Rightarrow> None)
          else None)"

definition slides_member :: "(jsstring \<times> json) list \<Rightarrow> json list option" where
  "slides_member ms =
     (case map_of ms (js ''slides'') of
        Some (JArr slides) \<Rightarrow> Some slides
      | _ \<Rightarrow> None)"

definition batch_slides :: "jsstring \<Rightarrow> json list option" where
  "batch_slides b =
     (case object_members b of None \<Rightarrow> None | Some ms \<Rightarrow> slides_member ms)"

definition object_slides :: "jsstring \<Rightarrow> json list" where
  "object_slides b = (case batch_slides b of None \<Rightarrow> [] | Some slides \<Rightarrow> slides)"

definition slides_after :: "json list \<Rightarrow> (jsstring \<times> json) list \<Rightarrow> json list" where
  "slides_after acc ms = (case slides_member ms of None \<Rightarrow> acc | Some slides \<Rightarrow> acc @ slides)"

definition root_state :: "nat \<Rightarrow> json list \<Rightarrow> phase1_state" where
  "root_state n acc =
     \<lparr>braceCount = 0, inString = False, currentObjectStartIndex = - 1,
      lastValidBatchEndIndex = n, p1_slides = acc\<rparr>"

section \<open>The phase-2 scan over closed slides\<close>

fun scan2 :: "jsstring \<Rightarrow> jsstring \<Rightarrow> nat \<Rightarrow> phase2_state \<Rightarrow> phase2_state" where
  "scan2 s [] j st = st"
| "scan2 s [c] j st = (if c = BACKSLASH then st else phase2_char s j c st)"
| "scan2 s (c # d # cs) j st =
     (if c = BACKSLASH then scan2 s cs (j + 2) st
      else scan2 s (d # cs) (j + 1) (phase2_char s j c st))"

definition nested2 :: "phase2_state \<Rightarrow> bool" where
  "nested2 st \<longleftrightarrow> 1 \<le> slideBraceCount st \<and> \<not> slideInString st"

definition neutral2 :: "jsstring \<Rightarrow> bool" where
  "neutral2 p \<longleftrightarrow> esc_closed p \<and> (\<forall>s i st. nested2 st \<longrightarrow> scan2 s p i st = st)"

definition closes_string2 :: "jsstring \<Rightarrow> bool" where
  "closes_string2 p \<longleftrightarrow>
     esc_closed p \<and> (\<forall>s i st. slideInString st \<longrightarrow> scan2 s p i st = st\<lparr>slideInString := False\<rparr>)"

section \<open>Rendered slides and batches\<close>

definition denotes :: "jsstring \<Rightarrow> jsstring \<Rightarrow> bool" where
  "denotes body t \<longleftrightarrow> parse_chars (body @ [DQUOTE]) = Some (t, [])"

definition slide_json :: "jsstring \<Rightarrow> jsstring \<Rightarrow> jsstring" where
  \<open>slide_json titleBody contentBody =
     js ''{"title":"'' @ titleBody @ js ''","content":"'' @ contentBody @ js ''"}''\<close>

definition slide_value :: "jsstring \<Rightarrow> jsstring \<Rightarrow> json" where
  "slide_value t c = JObj [(js ''title'', JStr t), (js ''content'', JStr c)]"

fun join_comma :: "jsstring list \<Rightarrow> jsstring" where
  "join_comma [] = []"
| "join_comma [x] = x"
| "join_comma (x # y # xs) = x @ COMMA # join_comma (y # xs)"

definition batch_json :: "jsstring list \<Rightarrow> jsstring" where
  \<open>batch_json slideTexts = js ''{"slides":['' @ join_comma slideTexts @ js '']}''\<close>

text \<open>A list of object texts, each of which parses to its value whatever follows.\<close>

definition object_text :: "jsstring \<Rightarrow> json \<Rightarrow> bool" where
  "object_text x v \<longleftrightarrow> (\<exists>y. x = LBRACE # y) \<and> (\<forall>r. parse_value (x @ r) = Some (v, r))"

section \<open>Complete batches\<close>

text \<open>Sample buffers.\<close>

definition batch_A :: jsstring where
  \<open>batch_A = js ''{"slides":[{"title":"A","content":"<div>x</div>"}]}''\<close>

definition batch_B :: jsstring where
  \<open>batch_B = js ''{"slides":[{"title":"B","content":"<div>y</div>"}]}''\<close>

definition slide_A :: json where
  "slide_A = slide_value (js ''A'') (js ''<div>x</div>'')"

definition slide_B :: json where
  "slide_B = slide_value (js ''B'') (js ''<div>y</div>'')"

definition batch_fenced :: jsstring where
  \<open>batch_fenced = js ''{"slides":[{"title":"A","content":"```"}]}''\<close>

definition not_a_batch :: jsstring where
  \<open>not_a_batch = js ''{"error":"quota"}''\<close>

text \<open>Sample slides.\<close>

definition plain_slide :: jsstring where
  "plain_slide = slide_json (js ''Intro'') (js ''<h1>Hello</h1>'')"

definition quoted_slide :: jsstring where
  "quoted_slide = slide_json (js ''A'')
       (js ''<p class='' @ [BACKSLASH, DQUOTE] @ js ''x'' @ [BACKSLASH, DQUOTE] @ js ''>hi</p>'')"

definition quoted_buffer :: jsstring where
  "quoted_buffer = batch_A @ batch_json [plain_slide, quoted_slide] @ batch_B"

section \<open>The slide in progress\<close>

text \<open>A text that does not end the string literal it is read in: every quote is escaped.\<close>

fun inside_string :: "jsstring \<Rightarrow> bool" where
  "inside_string [] = True"
| "inside_string [c] = (c \<noteq> DQUOTE)"
| "inside_string (c # d # cs) =
     (if c = BACKSLASH then inside_string cs else c \<noteq> DQUOTE \<and> inside_string (d # cs))"

definition slide_head :: "jsstring \<Rightarrow> jsstring" where
  \<open>slide_head titleBody = js ''"title":"'' @ titleBody @ js ''","content":''\<close>

definition open_slide :: "jsstring \<Rightarrow> jsstring \<Rightarrow> jsstring" where
  \<open>open_slide titleBody partialBody = LBRACE # slide_head titleBody @ DQUOTE # partialBody\<close>

definition slide_state :: "nat \<Rightarrow> json list \<Rightarrow> phase2_state" where
  "slide_state n acc =
     \<lparr>slideBraceCount = 0, slideStartIndex = - 1, slideInString = False,
      lastParsedSlideEnd = n, p2_slides = acc\<rparr>"

text \<open>
  The closed slides of a batch that is still open, as rendered texts, and their values.
  A slide is collected by the second scan only if no slide collected before has its title.
\<close>

definition rendered_slides :: "(jsstring \<times> jsstring) list \<Rightarrow> jsstring" where
  "rendered_slides finished = join_comma (map (\<lambda>(tr, cr). slide_json tr cr) finished)"

definition slide_values :: "(jsstring \<times> jsstring) list \<Rightarrow> json list" where
  "slide_values vs = map (\<lambda>(t, c). slide_value t c) vs"

fun fresh_titles :: "json list \<Rightarrow> (jsstring \<times> jsstring) list \<Rightarrow> bool" where
  "fresh_titles acc [] = True"
| "fresh_titles acc ((t, c) # vs) =
     (some_title_eq acc (Some (JStr t)) = Inr False \<and> fresh_titles (acc @ [slide_value t c]) vs)"

definition quiet1 :: "jsstring \<Rightarrow> bool" where
  "quiet1 tail \<longleftrightarrow>
     (\<forall>s i st. nested1 st \<longrightarrow>
        lastValidBatchEndIndex (scan1 s tail i st) = lastValidBatchEndIndex st
        \<and> p1_slides (scan1 s tail i st) = p1_slides st)"

definition quiet2 :: "jsstring \<Rightarrow> bool" where
  "quiet2 tail \<longleftrightarrow>
     (\<forall>s j n acc.
        lastParsedSlideEnd (scan2 s tail j (slide_state n acc)) = n
        \<and> p2_slides (scan2 s tail j (slide_state n acc)) = acc)"


section \<open>Escaped quotes\<close>

text \<open>
  The ways a stream may break off behind the closed slides of its open batch: at once,
  after the comma, or inside the content string of the next slide.
\<close>

definition open_tail :: "jsstring \<Rightarrow> bool" where
  "open_tail tail \<longleftrightarrow>
     tail = [] \<or> tail = [COMMA]
     \<or> (\<exists>tr t p. denotes tr t \<and> inside_string p
           \<and> (tail = open_slide tr p \<or> tail = COMMA # open_slide tr p))"

definition open_quoted_buffer :: jsstring where
  \<open>open_quoted_buffer =
     batch_A @ js ''{"slides":[''
       @ rendered_slides
           [(js ''Intro'', js ''<h1>Hello</h1>''),
            (js ''Q'', js ''<p class='' @ [BACKSLASH, DQUOTE] @ js ''x'' @ [BACKSLASH, DQUOTE] @ js ''>hi</p>'')]
       @ COMMA # open_slide (js ''C'') (js ''<p>par'')\<close>


section \<open>Fence markers\<close>

definition json_follows :: "jsstring \<Rightarrow> bool" where
  "json_follows y \<longleftrightarrow>
     startsWith y (js ''json'') \<or> startsWith y (js ''`json'') \<or> startsWith y (js ''``json'')"

definition content_cut_left :: jsstring where
  \<open>content_cut_left = js ''{"slides":[{"title":"A","content":"<div>''\<close>

definition content_cut_right :: jsstring where
  \<open>content_cut_right = js ''x</div>"}]}''\<close>

definition title_cut_left :: jsstring where
  \<open>title_cut_left = js ''{"slides":[{"title":"''\<close>

definition title_cut_right :: jsstring where
  \<open>title_cut_right = js ''json","content":"x"}]}''\<close>

section \<open>Properties of the content transforms\<close>

text \<open>Some position of the text starts a match of the URL expression.\<close>

fun has_image_url :: "jsstring \<Rightarrow> bool" where
  "has_image_url [] = False"
| "has_image_url (c # cs) = (match_url (c # cs) \<noteq> None \<or> has_image_url cs)"

definition chart_tag :: jsstring where
  \<open>chart_tag = js ''<quickchart config='{"type":"bar"}'>''\<close>

definition chart_img :: jsstring where
  \<open>chart_img = js ''<img src="https://quickchart.io/chart?c=%7B%22type%22%3A%22bar%22%7D">''\<close>

definition nested_chart_tag :: jsstring where
  \<open>nested_chart_tag = js ''<quickchart config='a' b="<quickchart config='z'">''\<close>

section \<open>The generation-call layer: \<^verbatim>\<open>_withRetry\<close> (services/gemini.ts)\<close>

text \<open>
  What the retry helper observes of a caught error: its \<^verbatim>\<open>message\<close> (absent for a
  thrown value without one) and the outcome of the loose comparison
  \<^verbatim>\<open>error.code == 429\<close>.
\<close>

record js_error =
  err_message :: "jsstring option"
  err_code_is_429 :: bool

text \<open>
  \<^verbatim>\<open>(error.message && error.message.includes("429")) || error.code == 429\<close>;
  the empty message is falsy.
\<close>

definition is_rate_limit :: "js_error \<Rightarrow> bool" where
  "is_rate_limit error =
     ((case err_message error of
         None \<Rightarrow> False
       | Some m \<Rightarrow> m \<noteq> [] \<and> js_includes m (js ''429''))
      \<or> err_code_is_429 error)"

text \<open>
  The result of one run of the helper: what it returns or throws, how often it invoked
  the wrapped call, and the delays (in milliseconds) it waited, in order.
\<close>

record 'a retry_result =
  outcome :: "js_error + 'a"
  attempts :: nat
  delays :: "nat list"

text \<open>
  \<^verbatim>\<open>new Error(`AI service failed after ${maxRetries} attempts. Last error: ${lastError?.message}`)\<close>
\<close>

definition exhausted_error :: "nat \<Rightarrow> js_error option \<Rightarrow> js_error" where
  "exhausted_error maxRetries lastError =
     \<lparr>err_message = Some (js ''AI service failed after '' @ num_to_string maxRetries
          @ js '' attempts. Last error: ''
          @ (case lastError of
               None \<Rightarrow> js ''undefined''
             | Some e \<Rightarrow> (case err_message e of None \<Rightarrow> js ''undefined'' | Some m \<Rightarrow> m))),
      err_code_is_429 = False\<rparr>"

text \<open>
  The wrapped call \<open>fn\<close> is external and may answer differently each time it is invoked:
  \<open>fn i\<close> is the outcome of its invocation in iteration \<open>i\<close> of the loop, \<open>Inl\<close> a
  rejection. The loop of the source, with \<open>lastError\<close> and the delays waited so far.
\<close>

function withRetry_loop ::
  "(nat \<Rightarrow> js_error + 'a) \<Rightarrow> nat \<Rightarrow> nat \<Rightarrow> js_error option \<Rightarrow> nat list \<Rightarrow> 'a retry_result"
where
  "withRetry_loop fn maxRetries i lastError slept =
     (if i < maxRetries then
        (case fn i of
           Inr v \<Rightarrow> \<lparr>outcome = Inr v, attempts = i + 1, delays = slept\<rparr>
         | Inl error \<Rightarrow>
             if is_rate_limit error
             then \<lparr>outcome = Inl error, attempts = i + 1, delays = slept\<rparr>
             else withRetry_loop fn maxRetries (i + 1) (Some error) (slept @ [1000 * (i + 1)]))
      else \<lparr>outcome = Inl (exhausted_error maxRetries lastError), attempts = i,
             delays = slept\<rparr>)"
  by pat_completeness auto

termination
  by (relation "measure (\<lambda>(fn, maxRetries, i, lastError, slept). maxRetries - i)") auto

declare withRetry_loop.simps [simp del]

definition withRetry :: "(nat \<Rightarrow> js_error + 'a) \<Rightarrow> nat \<Rightarrow> 'a retry_result" where
  "withRetry fn maxRetries = withRetry_loop fn maxRetries 0 None []"

text \<open>Every call site passes no second argument: \<^verbatim>\<open>maxRetries: number = 3\<close>.\<close>

definition DEFAULT_MAX_RETRIES :: nat where
  "DEFAULT_MAX_RETRIES = 3"

section \<open>The orchestrator: \<^verbatim>\<open>generatePresentationStream\<close> (services/gemini.ts)\<close>

record OutlineItem =
  item_id :: jsstring
  item_title :: jsstring
  item_points :: "jsstring list"

text \<open>
  The prompt texts come from a module outside the sources at hand; a message is
  represented by the data the source interpolates into it: the first request names the
  slide range, a later one the range and the titles of the batch's outline items.
\<close>

datatype message =
  FirstRequest nat nat
| ContinueRequest nat nat "jsstring list"

text \<open>
  The backend's answer to one \<^verbatim>\<open>sendMessageStream\<close>: the chunks of the stream (a
  chunk's \<^verbatim>\<open>text\<close> may be absent) and, when the stream breaks off, the error it
  throws after them.
\<close>

record response =
  chunks :: "jsstring option list"
  failure :: "js_error option"

record GenerationChunk =
  chunk_text :: jsstring
  isComplete :: bool

record gen_result =
  yielded :: "GenerationChunk list"
  thrown :: "js_error option"

definition BATCH_SIZE :: nat where
  "BATCH_SIZE = 4"

text \<open>\<^verbatim>\<open>if (chunk.text) yield { text: chunk.text, isComplete: isLastBatch }\<close>\<close>

fun batch_chunks :: "bool \<Rightarrow> jsstring option list \<Rightarrow> GenerationChunk list" where
  "batch_chunks isLastBatch [] = []"
| "batch_chunks isLastBatch (None # cs) = batch_chunks isLastBatch cs"
| "batch_chunks isLastBatch (Some t # cs) =
     (if t \<noteq> [] then \<lparr>chunk_text = t, isComplete = isLastBatch\<rparr> # batch_chunks isLastBatch cs
      else batch_chunks isLastBatch cs)"

definition batch_message :: "OutlineItem list \<Rightarrow> nat \<Rightarrow> message" where
  "batch_message outline i =
     (let startSlide = i + 1;
          endSlide = min (i + BATCH_SIZE) (length outline);
          batchOutlineItems = take BATCH_SIZE (drop i outline)
      in if i = 0 then FirstRequest startSlide endSlide
         else ContinueRequest startSlide endSlide (map item_title batchOutlineItems))"

text \<open>
  \<open>send m k\<close> is the outcome of the \<open>k\<close>-th attempt to send message \<open>m\<close> on the chat.
  The generator is modelled fully drained: it returns every chunk it yields and the error
  it throws, if any.
\<close>

function generate_loop ::
  "(message \<Rightarrow> nat \<Rightarrow> js_error + response) \<Rightarrow> OutlineItem list \<Rightarrow> nat \<Rightarrow>
   GenerationChunk list \<Rightarrow> gen_result"
where
  "generate_loop send outline i out =
     (if i < length outline then
        (let endSlide = min (i + BATCH_SIZE) (length outline);
             isLastBatch = (endSlide \<ge> length outline)
         in case outcome (withRetry (send (batch_message outline i)) DEFAULT_MAX_RETRIES) of
              Inl error \<Rightarrow> \<lparr>yielded = out, thrown = Some error\<rparr>
            | Inr responseStream \<Rightarrow>
                (let out' = out @ batch_chunks isLastBatch (chunks responseStream)
                 in case failure responseStream of
                      Some error \<Rightarrow> \<lparr>yielded = out', thrown = Some error\<rparr>
                    | None \<Rightarrow> generate_loop send outline (i + BATCH_SIZE) out'))
      else \<lparr>yielded = out, thrown = None\<rparr>)"
  by pat_completeness auto

termination
  by (relation "measure (\<lambda>(send, outline, i, out). length outline - i)")
     (auto simp: BATCH_SIZE_def)

declare generate_loop.simps [simp del]

definition generatePresentationStream ::
  "(message \<Rightarrow> nat \<Rightarrow> js_error + response) \<Rightarrow> OutlineItem list \<Rightarrow> gen_result" where
  "generatePresentationStream send outline = generate_loop send outline 0 []"

subsection \<open>Notions used to state the retry policy\<close>

text \<open>The first \<open>k\<close> invocations all fail with an error that is not a rate-limit signal.\<close>

definition transient_upto :: "(nat \<Rightarrow> js_error + 'a) \<Rightarrow> nat \<Rightarrow> bool" where
  "transient_upto fn k = (\<forall>j<k. \<exists>e. fn j = Inl e \<and> \<not> is_rate_limit e)"

text \<open>Linear backoff: the delays waited after \<open>k\<close> failed attempts.\<close>

definition backoff :: "nat \<Rightarrow> nat list" where
  "backoff k = map (\<lambda>j. 1000 * (j + 1)) [0..<k]"

text \<open>Two sample errors: a transient failure and a rate-limit rejection.\<close>

definition boom :: js_error where
  "boom = \<lparr>err_message = Some (js ''boom''), err_code_is_429 = False\<rparr>"

definition too_many :: js_error where
  "too_many = \<lparr>err_message = Some (js ''got status: 429 Too Many Requests''),
     err_code_is_429 = False\<rparr>"

subsection \<open>Notions used to state the orchestrator's properties\<close>

text \<open>The start index of the final batch of a non-empty outline.\<close>

definition final_batch_start :: "OutlineItem list \<Rightarrow> nat" where
  "final_batch_start outline = BATCH_SIZE * ((length outline - 1) div BATCH_SIZE)"

text \<open>
  The values of the loop variable \<open>i\<close> at which a batch starts, and the chunks that the
  batch starting at \<open>i\<close> contributes: none when its request fails for good, otherwise the
  non-empty texts of its response, flagged complete exactly in the final batch.
\<close>

definition batch_starts :: "OutlineItem list \<Rightarrow> nat list" where
  "batch_starts outline = filter (\<lambda>i. BATCH_SIZE dvd i) [0..<length outline]"

definition batch_texts :: "jsstring option list \<Rightarrow> jsstring list" where
  "batch_texts cs = filter (\<lambda>t. t \<noteq> []) (map the (filter (\<lambda>c. c \<noteq> None) cs))"

definition batch_yield ::
  "(message \<Rightarrow> nat \<Rightarrow> js_error + response) \<Rightarrow> OutlineItem list \<Rightarrow> nat \<Rightarrow> GenerationChunk list" where
  "batch_yield send outline i =
     (case outcome (withRetry (send (batch_message outline i)) DEFAULT_MAX_RETRIES) of
        Inl error \<Rightarrow> []
      | Inr responseStream \<Rightarrow>
          map (\<lambda>t. \<lparr>chunk_text = t, isComplete = (i = final_batch_start outline)\<rparr>)
            (batch_texts (chunks responseStream)))"

text \<open>Sample outlines and two scripted backends.\<close>

definition sample_outline :: "nat \<Rightarrow> OutlineItem list" where
  "sample_outline n = replicate n \<lparr>item_id = js ''id'', item_title = js ''Topic'', item_points = []\<rparr>"

definition two_chunk_backend :: "message \<Rightarrow> nat \<Rightarrow> js_error + response" where
  \<open>two_chunk_backend m k =
     Inr \<lparr>chunks = [Some (js ''{"sl''), Some (js ''ides":[]}'')], failure = None\<rparr>\<close>

definition two_batch_backend :: "message \<Rightarrow> nat \<Rightarrow> js_error + response" where
  "two_batch_backend m k =
     (case m of
        FirstRequest a b \<Rightarrow> Inr \<lparr>chunks = [Some (js ''a''), None, Some []], failure = None\<rparr>
      | ContinueRequest a b ts \<Rightarrow> Inr \<lparr>chunks = [Some (js ''b''), Some (js ''c'')], failure = None\<rparr>)"

lemma skip_ws_split: "s = takeWhile is_json_ws s @ skip_ws s"
  by (simp add: skip_ws_def)

lemma ws_plain: "is_json_ws c \<Longrightarrow> plain c"
  by (auto simp: is_json_ws_def plain_def)

lemma takeWhile_ws_plain: "\<forall>c\<in>set (takeWhile is_json_ws s). plain c"
  by (auto dest: set_takeWhileD ws_plain)

lemma digit_plain: "is_digit c \<Longrightarrow> plain c"
  by (auto simp: is_digit_def plain_def)

lemma takeWhile_digit_plain: "\<forall>c\<in>set (takeWhile is_digit s). plain c"
  by (auto dest: set_takeWhileD digit_plain)

lemma parse_int_part_shape:
  assumes a: "parse_int_part s = Some (ip, r)"
  shows "s = ip @ r \<and> (\<forall>c\<in>set ip. plain c)"
proof (cases s)
  case Nil
  then show ?thesis using a by (simp add: parse_int_part_def)
next
  case (Cons c cs)
  show ?thesis
  proof (cases "c = 0x30")
    case True
    with a Cons have "ip = [c]" "r = cs" by (simp_all add: parse_int_part_def)
    with Cons True show ?thesis by (simp add: plain_def)
  next
    case False
    with a Cons have d: "is_digit c" by (simp add: parse_int_part_def split: if_splits)
    with a Cons False have "ip = takeWhile is_digit s" "r = dropWhile is_digit s"
      by (simp_all add: parse_int_part_def)
    then show ?thesis using takeWhile_digit_plain by simp
  qed
qed

lemma parse_frac_part_shape:
  assumes a: "parse_frac_part s = Some (fp, r)"
  shows "\<exists>p. s = p @ r \<and> (\<forall>c\<in>set p. plain c)"
proof (cases s)
  case Nil
  with a have "s = [] @ r" by (simp add: parse_frac_part_def)
  then show ?thesis by (metis empty_iff list.set(1))
next
  case (Cons c cs)
  show ?thesis
  proof (cases "c = 0x2E")
    case True
    with a Cons have r: "r = dropWhile is_digit cs"
      by (simp add: parse_frac_part_def split: if_splits)
    have "s = (c # takeWhile is_digit cs) @ r" using Cons r by simp
    moreover have "\<forall>x\<in>set (c # takeWhile is_digit cs). plain x"
      using True takeWhile_digit_plain by (simp add: plain_def)
    ultimately show ?thesis by blast
  next
    case False
    with a Cons have "s = [] @ r" by (simp add: parse_frac_part_def)
    then show ?thesis by (metis empty_iff list.set(1))
  qed
qed

lemma exp_digits_shape:
  assumes "takeWhile is_digit ds \<noteq> [] \<longrightarrow> r = dropWhile is_digit ds"
    and "takeWhile is_digit ds \<noteq> []"
    and "\<forall>x\<in>set pre. plain x"
  shows "\<exists>p. pre @ ds = p @ r \<and> (\<forall>c\<in>set p. plain c)"
proof -
  have "pre @ ds = (pre @ takeWhile is_digit ds) @ r" using assms(1,2) by simp
  moreover have "\<forall>c\<in>set (pre @ takeWhile is_digit ds). plain c"
    using assms(3) takeWhile_digit_plain by auto
  ultimately show ?thesis by blast
qed

lemma parse_exp_part_shape:
  assumes a: "parse_exp_part s = Some (ex, r)"
  shows "\<exists>p. s = p @ r \<and> (\<forall>c\<in>set p. plain c)"
proof (cases s)
  case Nil
  with a have "s = [] @ r" by (simp add: parse_exp_part_def)
  then show ?thesis by (metis empty_iff list.set(1))
next
  case (Cons c cs)
  show ?thesis
  proof (cases "c = 0x65 \<or> c = 0x45")
    case False
    with a Cons have "s = [] @ r" by (simp add: parse_exp_part_def)
    then show ?thesis by (metis empty_iff list.set(1))
  next
    case e: True
    then have pc: "plain c" by (auto simp: plain_def)
    show ?thesis
    proof (cases cs)
      case Nil
      with a Cons e show ?thesis by (simp add: parse_exp_part_def)
    next
      case cs: (Cons g gs)
      show ?thesis
      proof (cases "g = 0x2D \<or> g = 0x2B")
        case True
        then have pg: "plain g" by (auto simp: plain_def)
        from True a Cons cs e have 1: "takeWhile is_digit gs \<noteq> []"
          and 2: "r = dropWhile is_digit gs"
          by (auto simp: parse_exp_part_def split: if_splits)
        from exp_digits_shape [of gs r "[c, g]"] 1 2 pc pg
        show ?thesis using Cons cs by simp
      next
        case False
        from False a Cons cs e have 1: "takeWhile is_digit cs \<noteq> []"
          and 2: "r = dropWhile is_digit cs"
          by (auto simp: parse_exp_part_def split: if_splits)
        from exp_digits_shape [of cs r "[c]"] 1 2 pc
        show ?thesis using Cons by simp
      qed
    qed
  qed
qed

lemma parse_number_shape:
  assumes a: "parse_number s = Some (v, r)"
  shows "\<exists>p. s = p @ r \<and> (\<forall>c\<in>set p. plain c)"
proof -
  define ns where "ns = (case s of [] \<Rightarrow> (False, s) | c # cs \<Rightarrow> if c = 0x2D then (True, cs) else (False, s))"
  define s1 where "s1 = snd ns"
  obtain sg where sg: "s = sg @ s1" "\<forall>x\<in>set sg. plain x"
  proof (cases s)
    case Nil
    then have "s = [] @ s1" by (simp add: s1_def ns_def)
    then show ?thesis using that by (metis empty_iff list.set(1))
  next
    case (Cons c cs)
    show ?thesis
    proof (cases "c = 0x2D")
      case True
      then have "s = [c] @ s1" "\<forall>x\<in>set [c]. plain x"
        using Cons by (auto simp: s1_def ns_def plain_def)
      then show ?thesis using that by blast
    next
      case False
      then have "s = [] @ s1" using Cons by (auto simp: s1_def ns_def)
      then show ?thesis using that by (metis empty_iff list.set(1))
    qed
  qed
  have unfold: "parse_number s =
     (case parse_int_part s1 of
           None \<Rightarrow> None
         | Some (ip, s2) \<Rightarrow>
             (case parse_frac_part s2 of
                None \<Rightarrow> None
              | Some (fp, s3) \<Rightarrow>
                  (case parse_exp_part s3 of
                     None \<Rightarrow> None
                   | Some (ex, s4) \<Rightarrow> Some (JNum (number_value (fst ns) ip fp ex), s4))))"
    unfolding parse_number_def ns_def [symmetric] s1_def by (simp add: split_beta)
  from a obtain ip s2 where ip: "parse_int_part s1 = Some (ip, s2)"
    unfolding unfold by (cases "parse_int_part s1") auto
  from a ip obtain fp s3 where fp: "parse_frac_part s2 = Some (fp, s3)"
    unfolding unfold by (cases "parse_frac_part s2") auto
  from a ip fp obtain ex where ex: "parse_exp_part s3 = Some (ex, r)"
    unfolding unfold by (cases "parse_exp_part s3") auto
  from parse_int_part_shape [OF ip] have 1: "s1 = ip @ s2" "\<forall>c\<in>set ip. plain c" by auto
  from parse_frac_part_shape [OF fp] obtain p2 where 2: "s2 = p2 @ s3" "\<forall>c\<in>set p2. plain c" by auto
  from parse_exp_part_shape [OF ex] obtain p3 where 3: "s3 = p3 @ r" "\<forall>c\<in>set p3. plain c" by auto
  have "s = (sg @ ip @ p2 @ p3) @ r" using sg 1 2 3 by simp
  moreover have "\<forall>c\<in>set (sg @ ip @ p2 @ p3). plain c" using sg 1 2 3 by auto
  ultimately show ?thesis by blast
qed

lemma startsWith_split: "startsWith s p \<Longrightarrow> s = p @ drop (length p) s"
  by (induction s p rule: startsWith.induct) auto

lemma startsWith_splitn: "startsWith s p \<Longrightarrow> length p = n \<Longrightarrow> s = p @ drop n s"
  using startsWith_split by blast

lemma parse_literal_shape:
  assumes "parse_literal s = Some (v, r)"
  shows "\<exists>p. s = p @ r \<and> (\<forall>c\<in>set p. plain c)"
proof -
  consider (t) "startsWith s (js ''true'')" "r = drop 4 s"
    | (f) "startsWith s (js ''false'')" "r = drop 5 s"
    | (n) "startsWith s (js ''null'')" "r = drop 4 s"
    | (num) "parse_number s = Some (v, r)"
    using assms by (auto simp: parse_literal_def split: if_splits)
  then show ?thesis
  proof cases
    case t
    from startsWith_splitn [OF t(1), of 4] t(2) have "s = js ''true'' @ r" by (simp add: js_def)
    moreover have "\<forall>c\<in>set (js ''true''). plain c" by (simp add: js_def plain_def)
    ultimately show ?thesis by blast
  next
    case f
    from startsWith_splitn [OF f(1), of 5] f(2) have "s = js ''false'' @ r" by (simp add: js_def)
    moreover have "\<forall>c\<in>set (js ''false''). plain c" by (simp add: js_def plain_def)
    ultimately show ?thesis by blast
  next
    case n
    from startsWith_splitn [OF n(1), of 4] n(2) have "s = js ''null'' @ r" by (simp add: js_def)
    moreover have "\<forall>c\<in>set (js ''null''). plain c" by (simp add: js_def plain_def)
    ultimately show ?thesis by blast
  next
    case num
    then show ?thesis by (rule parse_number_shape)
  qed
qed

lemma parse_value_cases:
  assumes "parse_value s = Some (v, r)"
  obtains (empty_obj) cs ds where "skip_ws s = LBRACE # cs" "skip_ws cs = RBRACE # ds"
      "v = JObj []" "r = ds"
    | (obj) cs d ds ms where "skip_ws s = LBRACE # cs" "skip_ws cs = d # ds" "d \<noteq> RBRACE"
      "parse_members (d # ds) [] = Some (ms, r)" "v = JObj ms"
    | (empty_arr) cs ds where "skip_ws s = LBRACKET # cs" "skip_ws cs = RBRACKET # ds"
      "v = JArr []" "r = ds"
    | (arr) cs d ds vs where "skip_ws s = LBRACKET # cs" "skip_ws cs = d # ds" "d \<noteq> RBRACKET"
      "parse_elements (d # ds) [] = Some (vs, r)" "v = JArr vs"
    | (str) cs t where "skip_ws s = DQUOTE # cs" "parse_chars cs = Some (t, r)" "v = JStr t"
    | (lit) c cs where "skip_ws s = c # cs" "c \<noteq> LBRACE" "c \<noteq> LBRACKET" "c \<noteq> DQUOTE"
      "parse_literal (c # cs) = Some (v, r)"
proof (cases "skip_ws s")
  case Nil
  with assms show ?thesis by (subst (asm) parse_value.simps) simp
next
  case (Cons c cs)
  show ?thesis
  proof (cases "c = LBRACE")
    case True
    show ?thesis
    proof (cases "skip_ws cs")
      case Nil
      with assms Cons True show ?thesis by (subst (asm) parse_value.simps) simp
    next
      case c2: (Cons d ds)
      show ?thesis
      proof (cases "d = RBRACE")
        case T: True
        with assms Cons True c2 have "v = JObj []" "r = ds"
          by (subst (asm) parse_value.simps, simp)+
        with empty_obj Cons True c2 T show ?thesis by blast
      next
        case False
        with assms Cons True c2 obtain ms where "parse_members (d # ds) [] = Some (ms, r)" "v = JObj ms"
          by (subst (asm) parse_value.simps) (simp split: option.splits prod.splits)
        with obj Cons True c2 False show ?thesis by blast
      qed
    qed
  next
    case nlb: False
    show ?thesis
    proof (cases "c = LBRACKET")
      case True
      show ?thesis
      proof (cases "skip_ws cs")
        case Nil
        with assms Cons True show ?thesis by (subst (asm) parse_value.simps) simp
      next
        case c2: (Cons d ds)
        show ?thesis
        proof (cases "d = RBRACKET")
          case T: True
          with assms Cons True c2 have "v = JArr []" "r = ds"
            by (subst (asm) parse_value.simps, simp)+
          with empty_arr Cons True c2 T show ?thesis by blast
        next
          case False
          with assms Cons True c2 obtain vs where "parse_elements (d # ds) [] = Some (vs, r)" "v = JArr vs"
            by (subst (asm) parse_value.simps) (simp split: option.splits prod.splits)
          with arr Cons True c2 False show ?thesis by blast
        qed
      qed
    next
      case nlk: False
      show ?thesis
      proof (cases "c = DQUOTE")
        case True
        with assms Cons obtain t where "parse_chars cs = Some (t, r)" "v = JStr t"
          by (subst (asm) parse_value.simps) (simp split: option.splits prod.splits)
        with str Cons True show ?thesis by blast
      next
        case False
        with assms Cons nlb nlk have "parse_literal (c # cs) = Some (v, r)"
          by (subst (asm) parse_value.simps) simp
        with lit Cons nlb nlk False show ?thesis by blast
      qed
    qed
  qed
qed

lemma parse_elements_cases:
  assumes "parse_elements s acc = Some (vs, r)"
  obtains (more) v r1 cs where "parse_value s = Some (v, r1)" "skip_ws r1 = COMMA # cs"
      "length cs < length s" "parse_elements cs (acc @ [v]) = Some (vs, r)"
    | (last) v r1 where "parse_value s = Some (v, r1)" "skip_ws r1 = RBRACKET # r"
      "vs = acc @ [v]"
proof (cases "parse_value s")
  case None
  with assms show ?thesis by (subst (asm) parse_elements.simps) simp
next
  case (Some x)
  obtain v r1 where x: "x = (v, r1)" by (cases x)
  show ?thesis
  proof (cases "skip_ws r1")
    case Nil
    with assms Some x show ?thesis by (subst (asm) parse_elements.simps) simp
  next
    case (Cons c cs)
    show ?thesis
    proof (cases "c = COMMA")
      case True
      with assms Some x Cons have "length cs < length s \<and> parse_elements cs (acc @ [v]) = Some (vs, r)"
        by (subst (asm) parse_elements.simps) (simp split: if_splits)
      with more Some x Cons True show ?thesis by blast
    next
      case False
      with assms Some x Cons have "c = RBRACKET \<and> vs = acc @ [v] \<and> r = cs"
        by (subst (asm) parse_elements.simps) (simp split: if_splits)
      with last Some x Cons show ?thesis by blast
    qed
  qed
qed

lemma parse_members_cases:
  assumes "parse_members s acc = Some (ms, r)"
  obtains (more) cs k rk r1 v r2 r3 where "skip_ws s = DQUOTE # cs"
      "parse_chars cs = Some (k, rk)" "skip_ws rk = COLON # r1" "length r1 < length s"
      "parse_value r1 = Some (v, r2)" "skip_ws r2 = COMMA # r3" "length r3 < length s"
      "parse_members r3 (put_member k v acc) = Some (ms, r)"
    | (last) cs k rk r1 v r2 where "skip_ws s = DQUOTE # cs"
      "parse_chars cs = Some (k, rk)" "skip_ws rk = COLON # r1" "length r1 < length s"
      "parse_value r1 = Some (v, r2)" "skip_ws r2 = RBRACE # r" "ms = put_member k v acc"
proof (cases "skip_ws s")
  case Nil
  with assms show ?thesis by (subst (asm) parse_members.simps) simp
next
  case (Cons q cs)
  with assms have q: "q = DQUOTE"
    by (subst (asm) parse_members.simps) (simp split: if_splits)
  show ?thesis
  proof (cases "parse_chars cs")
    case None
    with assms Cons q show ?thesis by (subst (asm) parse_members.simps) simp
  next
    case (Some x)
    obtain k rk where x: "x = (k, rk)" by (cases x)
    show ?thesis
    proof (cases "skip_ws rk")
      case Nil
      with assms Cons q Some x show ?thesis by (subst (asm) parse_members.simps) simp
    next
      case c1: (Cons c1 r1)
      with assms Cons q Some x have g1: "c1 = COLON \<and> length r1 < length s"
        by (subst (asm) parse_members.simps) (simp split: if_splits)
      show ?thesis
      proof (cases "parse_value r1")
        case None
        with assms Cons q Some x c1 g1 show ?thesis by (subst (asm) parse_members.simps) simp
      next
        case pv: (Some y)
        obtain v r2 where y: "y = (v, r2)" by (cases y)
        show ?thesis
        proof (cases "skip_ws r2")
          case Nil
          with assms Cons q Some x c1 g1 pv y show ?thesis
            by (subst (asm) parse_members.simps) simp
        next
          case c2: (Cons c2 r3)
          show ?thesis
          proof (cases "c2 = COMMA")
            case True
            with assms Cons q Some x c1 g1 pv y c2
            have "length r3 < length s \<and> parse_members r3 (put_member k v acc) = Some (ms, r)"
              by (subst (asm) parse_members.simps) (simp split: if_splits)
            with more Cons q Some x c1 g1 pv y c2 True show ?thesis by blast
          next
            case False
            with assms Cons q Some x c1 g1 pv y c2
            have "c2 = RBRACE \<and> ms = put_member k v acc \<and> r = r3"
              by (subst (asm) parse_members.simps) (simp split: if_splits)
            with last Cons q Some x c1 g1 pv y c2 show ?thesis by blast
          qed
        qed
      qed
    qed
  qed
qed

lemma N_ws:
  assumes "\<And>p. \<forall>c\<in>set p. plain c \<Longrightarrow> N p"
  shows "N (takeWhile is_json_ws s)"
  using assms takeWhile_ws_plain by blast

lemma parse_shape:
  fixes N :: "jsstring \<Rightarrow> bool"
  assumes plainN: "\<And>p. \<forall>c\<in>set p. plain c \<Longrightarrow> N p"
    and appN: "\<And>p q. N p \<Longrightarrow> N q \<Longrightarrow> N (p @ q)"
    and strN: "\<And>cs t r. parse_chars cs = Some (t, r) \<Longrightarrow> \<exists>p. cs = p @ r \<and> N (DQUOTE # p)"
    and objN: "\<And>p. N p \<Longrightarrow> N (LBRACE # p @ [RBRACE])"
  shows "\<forall>v r. parse_value s = Some (v, r) \<longrightarrow> (\<exists>p. s = p @ r \<and> N p)"
    and "\<forall>vs r. parse_elements s1 acc1 = Some (vs, r) \<longrightarrow> (\<exists>p. s1 = p @ r \<and> N p)"
    and "\<forall>ms r. parse_members s2 acc2 = Some (ms, r) \<longrightarrow> (\<exists>p. s2 = p @ RBRACE # r \<and> N p)"
proof (induction s and s1 acc1 and s2 acc2 rule: parse_value_parse_elements_parse_members.induct)
  case (1 s)
  have Nnil: "N []" using plainN [of "[]"] by simp
  have Nlk: "N [LBRACKET]" using plainN [of "[LBRACKET]"] by (simp add: plain_def)
  have Nrk: "N [RBRACKET]" using plainN [of "[RBRACKET]"] by (simp add: plain_def)
  show ?case
  proof (intro allI impI)
    fix v r
    assume pv: "parse_value s = Some (v, r)"
    define w where "w = takeWhile is_json_ws s"
    have s: "s = w @ skip_ws s" unfolding w_def by (rule skip_ws_split)
    have Nw: "N w" unfolding w_def using plainN by (rule N_ws)
    from pv show "\<exists>p. s = p @ r \<and> N p"
    proof (cases rule: parse_value_cases)
      case (empty_obj cs ds)
      define w2 where "w2 = takeWhile is_json_ws cs"
      have cs: "cs = w2 @ skip_ws cs" unfolding w2_def by (rule skip_ws_split)
      have Nw2: "N w2" unfolding w2_def using plainN by (rule N_ws)
      have "s = w @ skip_ws s" by (rule s)
      also have "skip_ws s = LBRACE # cs" by (rule empty_obj(1))
      also have "cs = w2 @ skip_ws cs" by (rule cs)
      also have "skip_ws cs = RBRACE # r" using empty_obj(2,4) by simp
      finally have "s = (w @ (LBRACE # w2 @ [RBRACE])) @ r" by simp
      moreover have "N (w @ (LBRACE # w2 @ [RBRACE]))" using Nw Nw2 appN objN by blast
      ultimately show ?thesis by blast
    next
      case (obj cs d ds ms)
      define w2 where "w2 = takeWhile is_json_ws cs"
      have cs: "cs = w2 @ skip_ws cs" unfolding w2_def by (rule skip_ws_split)
      have Nw2: "N w2" unfolding w2_def using plainN by (rule N_ws)
      from 1(1) [OF obj(1) refl obj(2) obj(3)] obj(4)
      obtain inner where inner: "d # ds = inner @ RBRACE # r" "N inner" by blast
      have "s = w @ skip_ws s" by (rule s)
      also have "skip_ws s = LBRACE # cs" by (rule obj(1))
      also have "cs = w2 @ skip_ws cs" by (rule cs)
      also have "skip_ws cs = inner @ RBRACE # r" using obj(2) inner(1) by simp
      finally have "s = (w @ (LBRACE # (w2 @ inner) @ [RBRACE])) @ r" by simp
      moreover have "N (w @ (LBRACE # (w2 @ inner) @ [RBRACE]))"
        using Nw Nw2 inner(2) appN objN by blast
      ultimately show ?thesis by blast
    next
      case (empty_arr cs ds)
      define w2 where "w2 = takeWhile is_json_ws cs"
      have cs: "cs = w2 @ skip_ws cs" unfolding w2_def by (rule skip_ws_split)
      have Nw2: "N w2" unfolding w2_def using plainN by (rule N_ws)
      have "s = w @ skip_ws s" by (rule s)
      also have "skip_ws s = LBRACKET # cs" by (rule empty_arr(1))
      also have "cs = w2 @ skip_ws cs" by (rule cs)
      also have "skip_ws cs = RBRACKET # r" using empty_arr(2,4) by simp
      finally have "s = (w @ [LBRACKET] @ w2 @ [RBRACKET]) @ r" by simp
      moreover have "N (w @ [LBRACKET] @ w2 @ [RBRACKET])" using Nw Nw2 Nlk Nrk appN by blast
      ultimately show ?thesis by blast
    next
      case (arr cs d ds vs)
      define w2 where "w2 = takeWhile is_json_ws cs"
      have cs: "cs = w2 @ skip_ws cs" unfolding w2_def by (rule skip_ws_split)
      have Nw2: "N w2" unfolding w2_def using plainN by (rule N_ws)
      have "LBRACKET \<noteq> LBRACE" by simp
      from 1(2) [OF arr(1) this refl arr(2) arr(3)] arr(4)
      obtain p where p: "d # ds = p @ r" "N p" by blast
      have "s = w @ skip_ws s" by (rule s)
      also have "skip_ws s = LBRACKET # cs" by (rule arr(1))
      also have "cs = w2 @ skip_ws cs" by (rule cs)
      also have "skip_ws cs = p @ r" using arr(2) p(1) by simp
      finally have "s = (w @ [LBRACKET] @ w2 @ p) @ r" by simp
      moreover have "N (w @ [LBRACKET] @ w2 @ p)" using Nw Nw2 Nlk p(2) appN by blast
      ultimately show ?thesis by blast
    next
      case (str cs t)
      from strN [OF str(2)] obtain p where p: "cs = p @ r" "N (DQUOTE # p)" by blast
      have "s = w @ skip_ws s" by (rule s)
      also have "skip_ws s = DQUOTE # cs" by (rule str(1))
      also have "cs = p @ r" by (rule p(1))
      finally have "s = (w @ DQUOTE # p) @ r" by simp
      moreover have "N (w @ DQUOTE # p)" using Nw p(2) appN by blast
      ultimately show ?thesis by blast
    next
      case (lit c cs)
      from parse_literal_shape [OF lit(5)] obtain p where p: "c # cs = p @ r" "\<forall>x\<in>set p. plain x"
        by blast
      have "s = w @ skip_ws s" by (rule s)
      also have "skip_ws s = p @ r" using lit(1) p(1) by simp
      finally have "s = (w @ p) @ r" by simp
      moreover have "N (w @ p)" using Nw p(2) plainN appN by blast
      ultimately show ?thesis by blast
    qed
  qed
next
  case (2 s acc)
  have Nnil: "N []" using plainN [of "[]"] by simp
  have Ncomma: "N [COMMA]" using plainN [of "[COMMA]"] by (simp add: plain_def)
  have Nrk: "N [RBRACKET]" using plainN [of "[RBRACKET]"] by (simp add: plain_def)
  show ?case
  proof (intro allI impI)
    fix vs r
    assume pe: "parse_elements s acc = Some (vs, r)"
    from pe show "\<exists>p. s = p @ r \<and> N p"
    proof (cases rule: parse_elements_cases)
      case (more v r1 cs)
      from 2(1) more(1) obtain p1 where p1: "s = p1 @ r1" "N p1" by blast
      define w where "w = takeWhile is_json_ws r1"
      have r1: "r1 = w @ skip_ws r1" unfolding w_def by (rule skip_ws_split)
      have Nw: "N w" unfolding w_def using plainN by (rule N_ws)
      from 2(2) [OF more(1) refl more(2) refl more(3)] more(4)
      obtain p where p: "cs = p @ r" "N p" by blast
      have "s = p1 @ r1" by (rule p1(1))
      also have "r1 = w @ skip_ws r1" by (rule r1)
      also have "skip_ws r1 = COMMA # cs" by (rule more(2))
      also have "cs = p @ r" by (rule p(1))
      finally have "s = (p1 @ w @ [COMMA] @ p) @ r" by simp
      moreover have "N (p1 @ w @ [COMMA] @ p)" using p1(2) Nw Ncomma p(2) appN by blast
      ultimately show ?thesis by blast
    next
      case (last v r1)
      from 2(1) last(1) obtain p1 where p1: "s = p1 @ r1" "N p1" by blast
      define w where "w = takeWhile is_json_ws r1"
      have r1: "r1 = w @ skip_ws r1" unfolding w_def by (rule skip_ws_split)
      have Nw: "N w" unfolding w_def using plainN by (rule N_ws)
      have "s = p1 @ r1" by (rule p1(1))
      also have "r1 = w @ skip_ws r1" by (rule r1)
      also have "skip_ws r1 = RBRACKET # r" by (rule last(2))
      finally have "s = (p1 @ w @ [RBRACKET]) @ r" by simp
      moreover have "N (p1 @ w @ [RBRACKET])" using p1(2) Nw Nrk appN by blast
      ultimately show ?thesis by blast
    qed
  qed
next
  case (3 s acc)
  have Nnil: "N []" using plainN [of "[]"] by simp
  have Ncomma: "N [COMMA]" using plainN [of "[COMMA]"] by (simp add: plain_def)
  have Ncolon: "N [COLON]" using plainN [of "[COLON]"] by (simp add: plain_def)
  show ?case
  proof (intro allI impI)
    fix ms r
    assume pm: "parse_members s acc = Some (ms, r)"
    define w where "w = takeWhile is_json_ws s"
    have s: "s = w @ skip_ws s" unfolding w_def by (rule skip_ws_split)
    have Nw: "N w" unfolding w_def using plainN by (rule N_ws)
    from pm show "\<exists>p. s = p @ RBRACE # r \<and> N p"
    proof (cases rule: parse_members_cases)
      case (more cs k rk r1 v r2 r3)
      from strN [OF more(2)] obtain pkey where pkey: "cs = pkey @ rk" "N (DQUOTE # pkey)" by blast
      define w1 where "w1 = takeWhile is_json_ws rk"
      have rk: "rk = w1 @ skip_ws rk" unfolding w1_def by (rule skip_ws_split)
      have Nw1: "N w1" unfolding w1_def using plainN by (rule N_ws)
      from 3(1) [OF more(1) refl more(2) refl more(3) conjI [OF refl more(4)]] more(5)
      obtain pval where pval: "r1 = pval @ r2" "N pval" by blast
      define w2 where "w2 = takeWhile is_json_ws r2"
      have r2: "r2 = w2 @ skip_ws r2" unfolding w2_def by (rule skip_ws_split)
      have Nw2: "N w2" unfolding w2_def using plainN by (rule N_ws)
      from 3(2) [OF more(1) refl more(2) refl more(3) conjI [OF refl more(4)] more(5) refl
          more(6) refl more(7)] more(8)
      obtain p where p: "r3 = p @ RBRACE # r" "N p" by blast
      have "N (w @ (DQUOTE # pkey) @ w1 @ [COLON] @ pval @ w2 @ [COMMA] @ p)"
        by (intro Nw pkey(2) Nw1 Ncolon pval(2) Nw2 Ncomma p(2) appN)
      moreover have "s = (w @ (DQUOTE # pkey) @ w1 @ [COLON] @ pval @ w2 @ [COMMA] @ p) @ RBRACE # r"
      proof -
        have "s = w @ skip_ws s" by (rule s)
        also have "skip_ws s = DQUOTE # cs" by (rule more(1))
        also have "cs = pkey @ rk" by (rule pkey(1))
        also have "rk = w1 @ skip_ws rk" by (rule rk)
        also have "skip_ws rk = COLON # r1" by (rule more(3))
        also have "r1 = pval @ r2" by (rule pval(1))
        also have "r2 = w2 @ skip_ws r2" by (rule r2)
        also have "skip_ws r2 = COMMA # r3" by (rule more(6))
        also have "r3 = p @ RBRACE # r" by (rule p(1))
        finally show ?thesis by simp
      qed
      ultimately show ?thesis by blast
    next
      case (last cs k rk r1 v r2)
      from strN [OF last(2)] obtain pkey where pkey: "cs = pkey @ rk" "N (DQUOTE # pkey)" by blast
      define w1 where "w1 = takeWhile is_json_ws rk"
      have rk: "rk = w1 @ skip_ws rk" unfolding w1_def by (rule skip_ws_split)
      have Nw1: "N w1" unfolding w1_def using plainN by (rule N_ws)
      from 3(1) [OF last(1) refl last(2) refl last(3) conjI [OF refl last(4)]] last(5)
      obtain pval where pval: "r1 = pval @ r2" "N pval" by blast
      define w2 where "w2 = takeWhile is_json_ws r2"
      have r2: "r2 = w2 @ skip_ws r2" unfolding w2_def by (rule skip_ws_split)
      have Nw2: "N w2" unfolding w2_def using plainN by (rule N_ws)
      have "N (w @ (DQUOTE # pkey) @ w1 @ [COLON] @ pval @ w2)"
        by (intro Nw pkey(2) Nw1 Ncolon pval(2) Nw2 appN)
      moreover have "s = (w @ (DQUOTE # pkey) @ w1 @ [COLON] @ pval @ w2) @ RBRACE # r"
      proof -
        have "s = w @ skip_ws s" by (rule s)
        also have "skip_ws s = DQUOTE # cs" by (rule last(1))
        also have "cs = pkey @ rk" by (rule pkey(1))
        also have "rk = w1 @ skip_ws rk" by (rule rk)
        also have "skip_ws rk = COLON # r1" by (rule last(3))
        also have "r1 = pval @ r2" by (rule pval(1))
        also have "r2 = w2 @ skip_ws r2" by (rule r2)
        also have "skip_ws r2 = RBRACE # r" by (rule last(6))
        finally show ?thesis by simp
      qed
      ultimately show ?thesis by blast
    qed
  qed
qed

lemma scan1_Cons:
  "scan1 s (c # r) i st =
     (if c = BACKSLASH \<and> r \<noteq> [] then scan1 s (tl r) (i + 2) st
      else scan1 s r (i + 1) (phase1_char s i c st))"
  by (cases r) simp_all

lemma phase1_loop_scan1:
  "i \<le> length s \<Longrightarrow> phase1_loop s i st = scan1 s (drop i s) i st"
proof (induction s i st rule: phase1_loop.induct)
  case (1 s i st)
  show ?case
  proof (cases "i < length s")
    case False
    with 1(3) show ?thesis by (subst phase1_loop.simps) simp
  next
    case lt: True
    then obtain c r where d: "drop i s = c # r" and c: "c = s ! i" and r: "r = drop (i + 1) s"
      by (metis Cons_nth_drop_Suc Suc_eq_plus1)
    show ?thesis
    proof (cases "c = BACKSLASH \<and> i + 1 < length s")
      case True
      then obtain e r' where r': "r = e # r'" and r'': "r' = drop (i + 2) s"
        using r by (metis Cons_nth_drop_Suc Suc_eq_plus1 add_2_eq_Suc' add_Suc_right)
      have "phase1_loop s i st = phase1_loop s (i + 2) st"
        using lt True c by (subst phase1_loop.simps) simp
      also have "\<dots> = scan1 s (drop (i + 2) s) (i + 2) st"
        using 1(1) [OF lt refl] True c by simp
      finally show ?thesis using d r' r'' True by (simp add: scan1_Cons)
    next
      case False
      have "phase1_loop s i st = phase1_loop s (i + 1) (phase1_char s i c st)"
        using lt False c by (subst phase1_loop.simps) (auto simp: Let_def)
      also have "\<dots> = scan1 s (drop (i + 1) s) (i + 1) (phase1_char s i c st)"
        using 1(2) [OF lt refl] False c lt by simp
      moreover have "r = [] \<longleftrightarrow> \<not> i + 1 < length s" using r by auto
      ultimately show ?thesis
        using d r False by (auto simp: scan1_Cons)
    qed
  qed
qed

lemma esc_closed_Cons: "c \<noteq> BACKSLASH \<Longrightarrow> esc_closed (c # p) = esc_closed p"
  by (cases p) auto

lemma esc_closed_append: "esc_closed p \<Longrightarrow> esc_closed q \<Longrightarrow> esc_closed (p @ q)"
proof (induction p rule: esc_closed.induct)
  case 1
  then show ?case by simp
next
  case (2 c)
  then show ?case by (simp add: esc_closed_Cons)
next
  case (3 c d cs)
  then show ?case by (auto split: if_splits)
qed

lemma scan1_append:
  "esc_closed p \<Longrightarrow> scan1 s (p @ q) i st = scan1 s q (i + length p) (scan1 s p i st)"
proof (induction p arbitrary: i st rule: esc_closed.induct)
  case 1
  then show ?case by simp
next
  case (2 c)
  then show ?case by (simp add: scan1_Cons)
next
  case (3 c d cs)
  show ?case
  proof (cases "c = BACKSLASH")
    case True
    with 3 show ?thesis by (simp add: scan1_Cons)
  next
    case False
    with 3(2) [OF False, of "i + 1" "phase1_char s i c st"] 3(3) show ?thesis
      by (simp add: scan1_Cons)
  qed
qed

lemma phase1_char_in_string:
  "inString st \<Longrightarrow> c \<noteq> DQUOTE \<Longrightarrow> phase1_char s i c st = st"
  by (simp add: phase1_char_def)

lemma phase1_char_plain: "plain c \<Longrightarrow> phase1_char s i c st = st"
  by (simp add: phase1_char_def plain_def)

lemma plain_esc_closed: "\<forall>c\<in>set p. c \<noteq> BACKSLASH \<Longrightarrow> esc_closed p"
  by (induction p rule: esc_closed.induct) auto

lemma scan1_plain: "\<forall>c\<in>set p. plain c \<Longrightarrow> scan1 s p i st = st"
proof (induction p arbitrary: i)
  case Nil
  then show ?case by simp
next
  case (Cons c p)
  then have "c \<noteq> BACKSLASH" "phase1_char s i c st = st"
    by (simp_all add: plain_def phase1_char_plain)
  with Cons show ?case by (simp add: scan1_Cons)
qed

lemma scan1_in_string:
  "\<forall>c\<in>set p. c \<noteq> DQUOTE \<and> c \<noteq> BACKSLASH \<Longrightarrow> inString st \<Longrightarrow> scan1 s p i st = st"
proof (induction p arbitrary: i)
  case Nil
  then show ?case by simp
next
  case (Cons c p)
  then have "c \<noteq> BACKSLASH" "phase1_char s i c st = st"
    by (simp_all add: phase1_char_in_string)
  with Cons show ?case by (simp add: scan1_Cons)
qed

lemma neutral1_plain: "\<forall>c\<in>set p. plain c \<Longrightarrow> neutral1 p"
  unfolding neutral1_def using scan1_plain plain_esc_closed by (simp add: plain_def)

lemma neutral1_append: "neutral1 p \<Longrightarrow> neutral1 q \<Longrightarrow> neutral1 (p @ q)"
  unfolding neutral1_def by (simp add: esc_closed_append scan1_append)

lemma neutral1_braces:
  assumes "neutral1 p"
  shows "neutral1 (LBRACE # p @ [RBRACE])"
proof -
  from assms have ep: "esc_closed p" and np: "\<And>s i st. nested1 st \<Longrightarrow> scan1 s p i st = st"
    by (auto simp: neutral1_def)
  have e: "esc_closed (LBRACE # p @ [RBRACE])"
    using ep by (simp add: esc_closed_Cons esc_closed_append)
  have "scan1 s (LBRACE # p @ [RBRACE]) i st = st" if n: "nested1 st" for s i st
  proof -
    let ?st1 = "st\<lparr>braceCount := braceCount st + 1\<rparr>"
    have open1: "phase1_char s i LBRACE st = ?st1"
      using n by (simp add: phase1_char_def nested1_def)
    have n1: "nested1 ?st1" using n by (simp add: nested1_def)
    have close1: "phase1_char s j RBRACE ?st1 = st" for j
      using n by (simp add: phase1_char_def nested1_def Let_def)
    have "scan1 s (LBRACE # p @ [RBRACE]) i st = scan1 s (p @ [RBRACE]) (i + 1) ?st1"
      using open1 by (simp add: scan1_Cons)
    also have "\<dots> = scan1 s [RBRACE] (i + 1 + length p) (scan1 s p (i + 1) ?st1)"
      using ep by (rule scan1_append)
    also have "\<dots> = st" using np [OF n1] close1 by simp
    finally show ?thesis .
  qed
  with e show ?thesis by (simp add: neutral1_def)
qed

lemma hex4_length: "hex4 ds = Some u \<Longrightarrow> length ds = 4 \<and> (\<forall>d\<in>set ds. hex_value d \<noteq> None)"
  by (auto simp: hex4_def split: list.splits option.splits)

lemma hex_not_special: "hex_value d \<noteq> None \<Longrightarrow> d \<noteq> DQUOTE \<and> d \<noteq> BACKSLASH"
  by (auto simp: hex_value_def split: if_splits)

lemma parse_chars_closes:
  "parse_chars cs = Some (t, r) \<Longrightarrow> \<exists>p. cs = p @ r \<and> closes_string1 p"
proof (induction cs arbitrary: t r rule: parse_chars.induct)
  case 1
  then show ?case by simp
next
  case (2 c cs)
  show ?case
  proof (cases "c = DQUOTE")
    case True
    with 2(4) have r: "r = cs" by simp
    have "closes_string1 [DQUOTE]"
      by (simp add: closes_string1_def phase1_char_def)
    with True r show ?thesis by (metis append_Cons append_Nil)
  next
    case nq: False
    show ?thesis
    proof (cases "c = BACKSLASH")
      case bs: True
      from 2(4) nq bs obtain e cs' where cs: "cs = e # cs'"
        by (cases cs) auto
      show ?thesis
      proof (cases "e = 0x75")
        case u: True
        from 2(4) nq bs cs u obtain uu where h: "hex4 (take 4 cs') = Some uu"
          by (auto split: option.splits)
        from 2(4) nq bs cs u h obtain t' where pc: "parse_chars (drop 4 cs') = Some (t', r)"
          by (auto split: option.splits)
        from 2(1) [OF nq bs cs u h pc] obtain p' where p': "drop 4 cs' = p' @ r" "closes_string1 p'"
          by blast
        from hex4_length [OF h] have hx: "\<forall>d\<in>set (take 4 cs'). d \<noteq> DQUOTE \<and> d \<noteq> BACKSLASH"
          using hex_not_special by blast
        have "cs' = take 4 cs' @ drop 4 cs'" by simp
        with p'(1) have eq: "c # cs = (c # e # take 4 cs' @ p') @ r"
          using cs by (metis append.assoc append_Cons)
        have e1: "esc_closed (take 4 cs' @ p')"
          using hx p'(2) by (simp add: closes_string1_def esc_closed_append plain_esc_closed)
        have "scan1 s (take 4 cs' @ p') i st = st\<lparr>inString := False\<rparr>" if "inString st" for s i st
          using that hx p'(2) scan1_in_string [of "take 4 cs'" st s i]
          by (simp add: scan1_append plain_esc_closed closes_string1_def)
        with e1 bs have "closes_string1 (c # e # take 4 cs' @ p')"
          by (simp add: closes_string1_def)
        with eq show ?thesis by blast
      next
        case nu: False
        from 2(4) nq bs cs nu obtain d where se: "simple_escape e = Some d"
          by (auto split: option.splits)
        from 2(4) nq bs cs nu se obtain t' where pc: "parse_chars cs' = Some (t', r)"
          by (auto split: option.splits)
        from 2(2) [OF nq bs cs nu se pc] obtain p' where p': "cs' = p' @ r" "closes_string1 p'"
          by blast
        have "closes_string1 (c # e # p')" using p'(2) bs by (simp add: closes_string1_def)
        moreover have "c # cs = (c # e # p') @ r" using cs p'(1) by simp
        ultimately show ?thesis by blast
      qed
    next
      case nbs: False
      from 2(4) nq nbs have ok: "\<not> c < 0x20" by (auto split: if_splits)
      with 2(4) nq nbs obtain t' where pc: "parse_chars cs = Some (t', r)"
        by (auto split: option.splits)
      from 2(3) [OF nq nbs ok pc] obtain p' where p': "cs = p' @ r" "closes_string1 p'"
        by blast
      have "closes_string1 (c # p')"
        using p'(2) nq nbs
        by (simp add: closes_string1_def esc_closed_Cons scan1_Cons phase1_char_in_string)
      moreover have "c # cs = (c # p') @ r" using p'(1) by simp
      ultimately show ?thesis by blast
    qed
  qed
qed

lemma neutral1_string:
  assumes "closes_string1 p"
  shows "neutral1 (DQUOTE # p)"
proof -
  from assms have ep: "esc_closed p"
    and cp: "\<And>s i st. inString st \<Longrightarrow> scan1 s p i st = st\<lparr>inString := False\<rparr>"
    by (auto simp: closes_string1_def)
  have "scan1 s (DQUOTE # p) i st = st" if n: "nested1 st" for s i st
  proof -
    have o: "phase1_char s i DQUOTE st = st\<lparr>inString := True\<rparr>"
      using n by (simp add: phase1_char_def nested1_def)
    have "scan1 s ([DQUOTE] @ p) i st = scan1 s p (i + 1) (st\<lparr>inString := True\<rparr>)"
      using o by (subst scan1_append) simp_all
    also have "\<dots> = st" using cp [of "st\<lparr>inString := True\<rparr>"] n by (simp add: nested1_def)
    finally show ?thesis by simp
  qed
  with ep show ?thesis by (simp add: neutral1_def esc_closed_Cons)
qed

lemma parse_value_neutral1:
  "parse_value s = Some (v, r) \<Longrightarrow> \<exists>p. s = p @ r \<and> neutral1 p"
  using parse_shape(1) [of neutral1 s, OF neutral1_plain neutral1_append _ neutral1_braces]
    parse_chars_closes neutral1_string by blast

lemma parse_members_neutral1:
  "parse_members s acc = Some (ms, r) \<Longrightarrow> \<exists>p. s = p @ RBRACE # r \<and> neutral1 p"
  using parse_shape(3) [of neutral1 s acc, OF neutral1_plain neutral1_append _ neutral1_braces]
    parse_chars_closes neutral1_string by blast

lemma object_members_parse:
  assumes "object_members b = Some ms"
  shows "\<exists>cs. b = LBRACE # cs \<and> parse_value b = Some (JObj ms, [])"
proof (cases b)
  case Nil
  with assms show ?thesis by (simp add: object_members_def)
next
  case (Cons c cs)
  with assms have c: "c = LBRACE" by (simp add: object_members_def split: if_splits)
  from assms Cons c have "parse_value b = Some (JObj ms, [])"
    by (auto simp: object_members_def split: option.splits json.splits list.splits)
  with Cons c show ?thesis by simp
qed

lemma skip_ws_nonws: "\<not> is_json_ws c \<Longrightarrow> skip_ws (c # cs) = c # cs"
  by (simp add: skip_ws_def)

lemma object_text_shape:
  assumes "object_members b = Some ms"
  shows "\<exists>inner. b = LBRACE # inner @ [RBRACE] \<and> neutral1 inner"
proof -
  from object_members_parse [OF assms] obtain cs where b: "b = LBRACE # cs"
    and pv: "parse_value b = Some (JObj ms, [])" by blast
  have sk: "skip_ws b = LBRACE # cs" unfolding b by (rule skip_ws_nonws) (simp add: is_json_ws_def)
  define w where "w = takeWhile is_json_ws cs"
  have cs: "cs = w @ skip_ws cs" unfolding w_def by (rule skip_ws_split)
  have Nw: "neutral1 w" unfolding w_def using neutral1_plain by (rule N_ws)
  from pv show ?thesis
  proof (cases rule: parse_value_cases)
    case (empty_obj cs' ds)
    with sk have "skip_ws cs = [RBRACE]" by simp
    with cs have "b = LBRACE # w @ [RBRACE]" using b by simp
    with Nw show ?thesis by blast
  next
    case (obj cs' d ds ms')
    with sk have 1: "skip_ws cs = d # ds" and 2: "parse_members (d # ds) [] = Some (ms', [])" by simp_all
    from parse_members_neutral1 [OF 2] obtain p where p: "d # ds = p @ [RBRACE]" "neutral1 p" by blast
    have "cs = w @ skip_ws cs" by (rule cs)
    also have "skip_ws cs = p @ [RBRACE]" using 1 p(1) by simp
    finally have "b = LBRACE # (w @ p) @ [RBRACE]" using b by simp
    moreover have "neutral1 (w @ p)" using Nw p(2) by (rule neutral1_append)
    ultimately show ?thesis by blast
  qed (use sk in simp_all)
qed

lemma substring_middle: "substring (pre @ b @ post) (length pre) (length pre + length b) = b"
  by (simp add: substring_def min_def max_def)

lemma JSON_parse_object: "object_members b = Some ms \<Longrightarrow> JSON_parse b = Some (JObj ms)"
  using object_members_parse [of b ms] by (auto simp: JSON_parse_def skip_ws_def)

lemma close_batch_object:
  assumes om: "object_members b = Some ms"
    and j: "j + 1 = length pre + length b"
    and st: "currentObjectStartIndex st = int (length pre)"
  shows "close_batch (pre @ b @ post) j st =
         st\<lparr>p1_slides := slides_after (p1_slides st) ms, lastValidBatchEndIndex := j + 1,
            currentObjectStartIndex := - 1\<rparr>"
proof -
  have "substring (pre @ b @ post) (nat (currentObjectStartIndex st)) (j + 1) = b"
    using substring_middle [of pre b post] j st by simp
  moreover have "JSON_parse b = Some (JObj ms)" using om by (rule JSON_parse_object)
  ultimately show ?thesis
    by (cases "map_of ms (js ''slides'')")
       (auto simp: close_batch_def Let_def truthy_def js_get_def slides_after_def slides_member_def
             split: json.splits)
qed

lemma scan1_object:
  assumes om: "object_members b = Some ms"
  shows "scan1 (pre @ b @ post) (b @ post) (length pre) (root_state n acc) =
         scan1 (pre @ b @ post) post (length pre + length b)
           (root_state (length pre + length b) (slides_after acc ms))"
proof -
  let ?s = "pre @ b @ post"
  let ?i = "length pre"
  from object_text_shape [OF om] obtain inner where b: "b = LBRACE # inner @ [RBRACE]"
    and ni: "neutral1 inner" by blast
  from ni have ei: "esc_closed inner" by (simp add: neutral1_def)
  have eb: "esc_closed b" unfolding b using ei by (simp add: esc_closed_Cons esc_closed_append)
  let ?st1 = "(root_state n acc)\<lparr>currentObjectStartIndex := int ?i, braceCount := 1\<rparr>"
  have o: "phase1_char s ?i LBRACE (root_state n acc) = ?st1" for s
    by (simp add: phase1_char_def root_state_def)
  have n1: "nested1 ?st1" by (simp add: nested1_def root_state_def)
  let ?j = "?i + 1 + length inner"
  have j: "?j + 1 = length pre + length b" unfolding b by simp
  have c: "phase1_char ?s ?j RBRACE ?st1 =
           root_state (length pre + length b) (slides_after acc ms)"
  proof -
    have "phase1_char ?s ?j RBRACE ?st1 = close_batch ?s ?j (?st1\<lparr>braceCount := 0\<rparr>)"
      by (simp add: phase1_char_def root_state_def Let_def)
    also have "\<dots> = (?st1\<lparr>braceCount := 0\<rparr>)\<lparr>p1_slides := slides_after (p1_slides (?st1\<lparr>braceCount := 0\<rparr>)) ms,
        lastValidBatchEndIndex := ?j + 1, currentObjectStartIndex := - 1\<rparr>"
      by (rule close_batch_object [OF om j]) simp
    also have "\<dots> = root_state (length pre + length b) (slides_after acc ms)"
      using j by (simp add: root_state_def)
    finally show ?thesis .
  qed
  have "scan1 ?s (b @ post) ?i (root_state n acc) =
        scan1 ?s post (?i + length b) (scan1 ?s b ?i (root_state n acc))"
    using eb by (rule scan1_append)
  also have "scan1 ?s b ?i (root_state n acc) = scan1 ?s (inner @ [RBRACE]) (?i + 1) ?st1"
    unfolding b using o by (simp add: scan1_Cons)
  also have "\<dots> = scan1 ?s [RBRACE] ?j (scan1 ?s inner (?i + 1) ?st1)"
    using ei by (rule scan1_append)
  also have "scan1 ?s inner (?i + 1) ?st1 = ?st1"
    using ni n1 by (simp add: neutral1_def)
  also have "scan1 ?s [RBRACE] ?j ?st1 = root_state (length pre + length b) (slides_after acc ms)"
    using c by simp
  finally show ?thesis .
qed

lemma slides_after_object:
  "object_members b = Some ms \<Longrightarrow> slides_after acc ms = acc @ object_slides b"
  by (simp add: slides_after_def object_slides_def batch_slides_def split: option.splits)

lemma scan1_objects:
  assumes "\<forall>b\<in>set bs. object_members b \<noteq> None"
  shows "scan1 (pre @ concat bs @ post) (concat bs @ post) (length pre)
           (root_state (length pre) acc) =
         scan1 (pre @ concat bs @ post) post (length pre + length (concat bs))
           (root_state (length pre + length (concat bs)) (acc @ concat (map object_slides bs)))"
  using assms
proof (induction bs arbitrary: pre acc)
  case Nil
  then show ?case by simp
next
  case (Cons b bs)
  then obtain ms where om: "object_members b = Some ms" by auto
  let ?s = "pre @ b @ (concat bs @ post)"
  have "scan1 ?s (b @ (concat bs @ post)) (length pre) (root_state (length pre) acc) =
        scan1 ?s (concat bs @ post) (length pre + length b)
          (root_state (length pre + length b) (slides_after acc ms))"
    using om by (rule scan1_object)
  also have "\<dots> = scan1 ((pre @ b) @ concat bs @ post) (concat bs @ post) (length (pre @ b))
          (root_state (length (pre @ b)) (acc @ object_slides b))"
    using slides_after_object [OF om] by simp
  also have "\<dots> = scan1 ((pre @ b) @ concat bs @ post) post
          (length (pre @ b) + length (concat bs))
          (root_state (length (pre @ b) + length (concat bs))
             ((acc @ object_slides b) @ concat (map object_slides bs)))"
    using Cons.prems by (intro Cons.IH) simp
  finally show ?case by (simp add: add.assoc)
qed

lemma phase1_objects:
  assumes "\<forall>b\<in>set bs. object_members b \<noteq> None"
  shows "phase1_loop (concat bs) 0 phase1_init =
         root_state (length (concat bs)) (concat (map object_slides bs))"
proof -
  have "phase1_init = root_state (length ([]::jsstring)) []"
    by (simp add: phase1_init_def root_state_def)
  then have "phase1_loop (concat bs) 0 phase1_init =
        scan1 ([] @ concat bs @ []) (concat bs @ []) (length ([]::jsstring))
          (root_state (length ([]::jsstring)) [])"
    by (simp add: phase1_loop_scan1)
  also have "\<dots> = scan1 ([] @ concat bs @ []) [] (length ([]::jsstring) + length (concat bs))
      (root_state (length ([]::jsstring) + length (concat bs)) ([] @ concat (map object_slides bs)))"
    using assms by (rule scan1_objects)
  finally show ?thesis by simp
qed

subsection \<open>Cleaning a stream without fence markers\<close>

lemma startsWith_append: "startsWith s (p @ q) \<Longrightarrow> startsWith s p"
  by (induction s p rule: startsWith.induct) auto

lemma js_includes_append: "js_includes s (p @ q) \<Longrightarrow> js_includes s p"
proof (induction s)
  case Nil
  then show ?case by simp
next
  case (Cons c s)
  then show ?case using startsWith_append [of "c # s" p q] by auto
qed

lemma replace_all_absent: "\<not> js_includes s pat \<Longrightarrow> replace_all pat rep s = s"
  by (induction s) auto

lemma trim_id:
  assumes "s = [] \<or> (\<not> is_js_space (hd s) \<and> \<not> is_js_space (last s))"
  shows "trim s = s"
proof (cases "s = []")
  case True
  then show ?thesis by (simp add: trim_def)
next
  case False
  with assms have h: "\<not> is_js_space (hd s)" and l: "\<not> is_js_space (last s)" by auto
  from False h have 1: "dropWhile is_js_space s = s" by (cases s) auto
  from False l have 2: "dropWhile is_js_space (rev s) = rev s"
    by (cases "rev s") (auto simp: hd_rev [symmetric])
  show ?thesis by (simp add: trim_def 1 2)
qed

lemma fences_json: "js ''```json'' = js ''```'' @ js ''json''"
  by (simp add: js_def)

lemma clean_stream_id:
  assumes "\<not> js_includes s (js ''```'')"
    and "s = [] \<or> (\<not> is_js_space (hd s) \<and> \<not> is_js_space (last s))"
  shows "clean_stream s = s"
proof -
  have "\<not> js_includes s (js ''```json'')"
    using assms(1) js_includes_append [of s "js ''```''" "js ''json''"] by (auto simp: fences_json)
  then show ?thesis
    using assms by (simp add: clean_stream_def replace_all_absent trim_id)
qed

lemma objects_ends:
  assumes "\<forall>b\<in>set bs. object_members b \<noteq> None" and "bs \<noteq> []"
  shows "concat bs \<noteq> [] \<and> hd (concat bs) = LBRACE \<and> last (concat bs) = RBRACE"
proof -
  have shape: "\<exists>inner. b = LBRACE # inner @ [RBRACE]" if "b \<in> set bs" for b
    using assms(1) that object_text_shape by (metis not_Some_eq)
  from assms(2) obtain b0 bs0 where bs0: "bs = b0 # bs0" by (cases bs) auto
  from assms(2) obtain bs1 b1 where bs1: "bs = bs1 @ [b1]" by (cases bs rule: rev_cases) auto
  from shape [of b0] bs0 obtain i0 where i0: "b0 = LBRACE # i0 @ [RBRACE]" by auto
  from shape [of b1] bs1 obtain i1 where i1: "b1 = LBRACE # i1 @ [RBRACE]" by auto
  have "hd (concat bs) = LBRACE" "concat bs \<noteq> []" using bs0 i0 by simp_all
  moreover have "last (concat bs) = RBRACE" using bs1 i1 by simp
  ultimately show ?thesis by simp
qed

lemma clean_objects:
  assumes "\<forall>b\<in>set bs. object_members b \<noteq> None"
    and "\<not> js_includes (concat bs) (js ''```'')"
  shows "clean_stream (concat bs) = concat bs"
proof (cases "bs = []")
  case True
  then show ?thesis by (simp add: clean_stream_def trim_def)
next
  case False
  from objects_ends [OF assms(1) False]
  have "\<not> is_js_space (hd (concat bs)) \<and> \<not> is_js_space (last (concat bs))"
    by (simp add: is_js_space_def)
  with assms(2) show ?thesis by (intro clean_stream_id) simp_all
qed

lemma parse_objects:
  assumes "\<forall>b\<in>set bs. object_members b \<noteq> None"
    and "\<not> js_includes (concat bs) (js ''```'')"
  shows "parseLiveStream (concat bs) isStreamComplete =
         \<lparr>completeSlides = concat (map object_slides bs), inProgressHtml = []\<rparr>"
proof -
  have 1: "clean_stream (concat bs) = concat bs" using assms by (rule clean_objects)
  have 2: "phase1_loop (concat bs) 0 phase1_init =
           root_state (length (concat bs)) (concat (map object_slides bs))"
    using assms(1) by (rule phase1_objects)
  have 3: \<open>match_key_opener (js ''"slides"'') LBRACKET [] = None\<close>
    by (simp add: match_key_opener_def js_def)
  show ?thesis
    by (simp add: parseLiveStream_def 1 2 root_state_def Let_def 3)
qed

subsection \<open>The length tests of the parser never fail\<close>

lemma parse_value_shorter: "parse_value s = Some (v, r) \<Longrightarrow> length r \<le> length s"
  using parse_value_neutral1 [of s v r] by auto

lemma parse_chars_shorter: "parse_chars cs = Some (t, r) \<Longrightarrow> length r \<le> length cs"
  using parse_chars_closes [of cs t r] by auto

lemma skip_ws_shorter: "skip_ws r = c # cs \<Longrightarrow> length cs < length r"
proof -
  assume a: "skip_ws r = c # cs"
  have "length (skip_ws r) \<le> length r" unfolding skip_ws_def by (rule length_dropWhile_le)
  with a show ?thesis by simp
qed

lemma parse_elements_unguarded:
  "parse_elements s acc =
     (case parse_value s of
        None \<Rightarrow> None
      | Some (v, r) \<Rightarrow>
          (case skip_ws r of
             [] \<Rightarrow> None
           | c # cs \<Rightarrow>
               if c = COMMA then parse_elements cs (acc @ [v])
               else if c = RBRACKET then Some (acc @ [v], cs)
               else None))"
proof (cases "parse_value s")
  case None
  then show ?thesis by (subst parse_elements.simps) simp
next
  case (Some vr)
  obtain v r where vr: "vr = (v, r)" by (cases vr)
  show ?thesis
  proof (cases "skip_ws r")
    case Nil
    with Some vr show ?thesis by (subst parse_elements.simps) simp
  next
    case (Cons c cs)
    from parse_value_shorter [of s v r] skip_ws_shorter [OF Cons] Some vr
    have "length cs < length s" by simp
    with Some vr Cons show ?thesis by (subst parse_elements.simps) simp
  qed
qed

lemma parse_members_unguarded:
  "parse_members s acc =
     (case skip_ws s of
        [] \<Rightarrow> None
      | q # cs \<Rightarrow>
          if q = DQUOTE then
            (case parse_chars cs of
               None \<Rightarrow> None
             | Some (k, r) \<Rightarrow>
                 (case skip_ws r of
                    [] \<Rightarrow> None
                  | c1 # r1 \<Rightarrow>
                      if c1 = COLON then
                        (case parse_value r1 of
                           None \<Rightarrow> None
                         | Some (v, r2) \<Rightarrow>
                             (case skip_ws r2 of
                                [] \<Rightarrow> None
                              | c2 # r3 \<Rightarrow>
                                  if c2 = COMMA then parse_members r3 (put_member k v acc)
                                  else if c2 = RBRACE then Some (put_member k v acc, r3)
                                  else None))
                      else None))
          else None)"
proof (cases "skip_ws s")
  case Nil
  then show ?thesis by (subst parse_members.simps) simp
next
  case s: (Cons q cs)
  then have l0: "length cs < length s" by (rule skip_ws_shorter)
  show ?thesis
  proof (cases "parse_chars cs")
    case None
    with s show ?thesis by (subst parse_members.simps) simp
  next
    case (Some kr)
    obtain k r where kr: "kr = (k, r)" by (cases kr)
    from Some kr have l1: "length r \<le> length cs" by (simp add: parse_chars_shorter)
    show ?thesis
    proof (cases "skip_ws r")
      case Nil
      with s Some kr show ?thesis by (subst parse_members.simps) simp
    next
      case r: (Cons c1 r1)
      then have l2: "length r1 < length r" by (rule skip_ws_shorter)
      with l0 l1 have g1: "length r1 < length s" by simp
      show ?thesis
      proof (cases "parse_value r1")
        case None
        with s Some kr r show ?thesis by (subst parse_members.simps) simp
      next
        case pv: (Some vr)
        obtain v r2 where vr: "vr = (v, r2)" by (cases vr)
        from pv vr have l3: "length r2 \<le> length r1" by (simp add: parse_value_shorter)
        show ?thesis
        proof (cases "skip_ws r2")
          case Nil
          with s Some kr r pv vr show ?thesis by (subst parse_members.simps) simp
        next
          case r2: (Cons c2 r3)
          then have "length r3 < length r2" by (rule skip_ws_shorter)
          with l3 g1 have g2: "length r3 < length s" by simp
          with s Some kr r pv vr r2 g1 show ?thesis by (subst parse_members.simps) simp
        qed
      qed
    qed
  qed
qed

lemma scan2_Cons:
  "scan2 s (c # r) i st =
     (if c = BACKSLASH then scan2 s (tl r) (i + 2) st
      else scan2 s r (i + 1) (phase2_char s i c st))"
  by (cases r) simp_all

lemma phase2_loop_scan2:
  "j \<le> length s \<Longrightarrow> phase2_loop s j st = scan2 s (drop j s) j st"
proof (induction s j st rule: phase2_loop.induct)
  case (1 s j st)
  show ?case
  proof (cases "j < length s")
    case False
    with 1(3) show ?thesis by (subst phase2_loop.simps) simp
  next
    case lt: True
    then obtain c r where d: "drop j s = c # r" and c: "c = s ! j" and r: "r = drop (j + 1) s"
      by (metis Cons_nth_drop_Suc Suc_eq_plus1)
    show ?thesis
    proof (cases "c = BACKSLASH")
      case True
      have step: "phase2_loop s j st = phase2_loop s (j + 2) st"
        using lt True c by (subst phase2_loop.simps) simp
      show ?thesis
      proof (cases "j + 1 < length s")
        case True2: True
        then obtain e r' where r': "r = e # r'" and r'': "r' = drop (j + 2) s"
          using r by (metis Cons_nth_drop_Suc Suc_eq_plus1 add_2_eq_Suc' add_Suc_right)
        have "phase2_loop s (j + 2) st = scan2 s (drop (j + 2) s) (j + 2) st"
          using 1(1) [OF lt refl] True c True2 by simp
        with step show ?thesis using d r' r'' True by (simp add: scan2_Cons)
      next
        case False
        then have "r = []" using r by simp
        moreover have "phase2_loop s (j + 2) st = st"
          using False by (subst phase2_loop.simps) simp
        ultimately show ?thesis using step d True by simp
      qed
    next
      case False
      have "phase2_loop s j st = phase2_loop s (j + 1) (phase2_char s j c st)"
        using lt False c by (subst phase2_loop.simps) (auto simp: Let_def)
      also have "\<dots> = scan2 s (drop (j + 1) s) (j + 1) (phase2_char s j c st)"
        using 1(2) [OF lt refl] False c lt by simp
      finally show ?thesis
        using d r False by (simp add: scan2_Cons)
    qed
  qed
qed

lemma scan2_append:
  "esc_closed p \<Longrightarrow> scan2 s (p @ q) i st = scan2 s q (i + length p) (scan2 s p i st)"
proof (induction p arbitrary: i st rule: esc_closed.induct)
  case 1
  then show ?case by simp
next
  case (2 c)
  then show ?case by (simp add: scan2_Cons)
next
  case (3 c d cs)
  show ?case
  proof (cases "c = BACKSLASH")
    case True
    with 3 show ?thesis by (simp add: scan2_Cons)
  next
    case False
    with 3(2) [OF False, of "i + 1" "phase2_char s i c st"] 3(3) show ?thesis
      by (simp add: scan2_Cons)
  qed
qed

lemma phase2_char_in_string:
  "slideInString st \<Longrightarrow> c \<noteq> DQUOTE \<Longrightarrow> phase2_char s i c st = st"
  by (simp add: phase2_char_def)

lemma phase2_char_plain: "plain c \<Longrightarrow> phase2_char s i c st = st"
  by (simp add: phase2_char_def plain_def)

lemma scan2_plain: "\<forall>c\<in>set p. plain c \<Longrightarrow> scan2 s p i st = st"
proof (induction p arbitrary: i)
  case Nil
  then show ?case by simp
next
  case (Cons c p)
  then have "c \<noteq> BACKSLASH" "phase2_char s i c st = st"
    by (simp_all add: plain_def phase2_char_plain)
  with Cons show ?case by (simp add: scan2_Cons)
qed

lemma scan2_in_string:
  "\<forall>c\<in>set p. c \<noteq> DQUOTE \<and> c \<noteq> BACKSLASH \<Longrightarrow> slideInString st \<Longrightarrow> scan2 s p i st = st"
proof (induction p arbitrary: i)
  case Nil
  then show ?case by simp
next
  case (Cons c p)
  then have "c \<noteq> BACKSLASH" "phase2_char s i c st = st"
    by (simp_all add: phase2_char_in_string)
  with Cons show ?case by (simp add: scan2_Cons)
qed

lemma neutral2_plain: "\<forall>c\<in>set p. plain c \<Longrightarrow> neutral2 p"
  unfolding neutral2_def using scan2_plain plain_esc_closed by (simp add: plain_def)

lemma neutral2_append: "neutral2 p \<Longrightarrow> neutral2 q \<Longrightarrow> neutral2 (p @ q)"
  unfolding neutral2_def by (simp add: esc_closed_append scan2_append)

lemma neutral2_braces:
  assumes "neutral2 p"
  shows "neutral2 (LBRACE # p @ [RBRACE])"
proof -
  from assms have ep: "esc_closed p" and np: "\<And>s i st. nested2 st \<Longrightarrow> scan2 s p i st = st"
    by (auto simp: neutral2_def)
  have e: "esc_closed (LBRACE # p @ [RBRACE])"
    using ep by (simp add: esc_closed_Cons esc_closed_append)
  have "scan2 s (LBRACE # p @ [RBRACE]) i st = st" if n: "nested2 st" for s i st
  proof -
    let ?st1 = "st\<lparr>slideBraceCount := slideBraceCount st + 1\<rparr>"
    have open1: "phase2_char s i LBRACE st = ?st1"
      using n by (simp add: phase2_char_def nested2_def)
    have n1: "nested2 ?st1" using n by (simp add: nested2_def)
    have close1: "phase2_char s j RBRACE ?st1 = st" for j
      using n by (simp add: phase2_char_def nested2_def Let_def)
    have "scan2 s (LBRACE # p @ [RBRACE]) i st = scan2 s (p @ [RBRACE]) (i + 1) ?st1"
      using open1 by (simp add: scan2_Cons)
    also have "\<dots> = scan2 s [RBRACE] (i + 1 + length p) (scan2 s p (i + 1) ?st1)"
      using ep by (rule scan2_append)
    also have "\<dots> = st" using np [OF n1] close1 by simp
    finally show ?thesis .
  qed
  with e show ?thesis by (simp add: neutral2_def)
qed

lemma parse_chars_closes2:
  "parse_chars cs = Some (t, r) \<Longrightarrow> \<exists>p. cs = p @ r \<and> closes_string2 p"
proof (induction cs arbitrary: t r rule: parse_chars.induct)
  case 1
  then show ?case by simp
next
  case (2 c cs)
  show ?case
  proof (cases "c = DQUOTE")
    case True
    with 2(4) have r: "r = cs" by simp
    have "closes_string2 [DQUOTE]"
      by (simp add: closes_string2_def phase2_char_def)
    with True r show ?thesis by (metis append_Cons append_Nil)
  next
    case nq: False
    show ?thesis
    proof (cases "c = BACKSLASH")
      case bs: True
      from 2(4) nq bs obtain e cs' where cs: "cs = e # cs'"
        by (cases cs) auto
      show ?thesis
      proof (cases "e = 0x75")
        case u: True
        from 2(4) nq bs cs u obtain uu where h: "hex4 (take 4 cs') = Some uu"
          by (auto split: option.splits)
        from 2(4) nq bs cs u h obtain t' where pc: "parse_chars (drop 4 cs') = Some (t', r)"
          by (auto split: option.splits)
        from 2(1) [OF nq bs cs u h pc] obtain p' where p': "drop 4 cs' = p' @ r" "closes_string2 p'"
          by blast
        from hex4_length [OF h] have hx: "\<forall>d\<in>set (take 4 cs'). d \<noteq> DQUOTE \<and> d \<noteq> BACKSLASH"
          using hex_not_special by blast
        have "cs' = take 4 cs' @ drop 4 cs'" by simp
        with p'(1) have eq: "c # cs = (c # e # take 4 cs' @ p') @ r"
          using cs by (metis append.assoc append_Cons)
        have e1: "esc_closed (take 4 cs' @ p')"
          using hx p'(2) by (simp add: closes_string2_def esc_closed_append plain_esc_closed)
        have "scan2 s (take 4 cs' @ p') i st = st\<lparr>slideInString := False\<rparr>" if "slideInString st" for s i st
          using that hx p'(2) scan2_in_string [of "take 4 cs'" st s i]
          by (simp add: scan2_append plain_esc_closed closes_string2_def)
        with e1 bs have "closes_string2 (c # e # take 4 cs' @ p')"
          by (simp add: closes_string2_def)
        with eq show ?thesis by blast
      next
        case nu: False
        from 2(4) nq bs cs nu obtain d where se: "simple_escape e = Some d"
          by (auto split: option.splits)
        from 2(4) nq bs cs nu se obtain t' where pc: "parse_chars cs' = Some (t', r)"
          by (auto split: option.splits)
        from 2(2) [OF nq bs cs nu se pc] obtain p' where p': "cs' = p' @ r" "closes_string2 p'"
          by blast
        have "closes_string2 (c # e # p')" using p'(2) bs by (simp add: closes_string2_def)
        moreover have "c # cs = (c # e # p') @ r" using cs p'(1) by simp
        ultimately show ?thesis by blast
      qed
    next
      case nbs: False
      from 2(4) nq nbs have ok: "\<not> c < 0x20" by (auto split: if_splits)
      with 2(4) nq nbs obtain t' where pc: "parse_chars cs = Some (t', r)"
        by (auto split: option.splits)
      from 2(3) [OF nq nbs ok pc] obtain p' where p': "cs = p' @ r" "closes_string2 p'"
        by blast
      have "closes_string2 (c # p')"
        using p'(2) nq nbs
        by (simp add: closes_string2_def esc_closed_Cons scan2_Cons phase2_char_in_string)
      moreover have "c # cs = (c # p') @ r" using p'(1) by simp
      ultimately show ?thesis by blast
    qed
  qed
qed

lemma neutral2_string:
  assumes "closes_string2 p"
  shows "neutral2 (DQUOTE # p)"
proof -
  from assms have ep: "esc_closed p"
    and cp: "\<And>s i st. slideInString st \<Longrightarrow> scan2 s p i st = st\<lparr>slideInString := False\<rparr>"
    by (auto simp: closes_string2_def)
  have "scan2 s (DQUOTE # p) i st = st" if n: "nested2 st" for s i st
  proof -
    have o: "phase2_char s i DQUOTE st = st\<lparr>slideInString := True\<rparr>"
      using n by (simp add: phase2_char_def nested2_def)
    have "scan2 s ([DQUOTE] @ p) i st = scan2 s p (i + 1) (st\<lparr>slideInString := True\<rparr>)"
      using o by (subst scan2_append) simp_all
    also have "\<dots> = st" using cp [of "st\<lparr>slideInString := True\<rparr>"] n by (simp add: nested2_def)
    finally show ?thesis by simp
  qed
  with ep show ?thesis by (simp add: neutral2_def esc_closed_Cons)
qed

lemma parse_value_neutral2:
  "parse_value s = Some (v, r) \<Longrightarrow> \<exists>p. s = p @ r \<and> neutral2 p"
  using parse_shape(1) [of neutral2 s, OF neutral2_plain neutral2_append _ neutral2_braces]
    parse_chars_closes2 neutral2_string by blast

lemma parse_members_neutral2:
  "parse_members s acc = Some (ms, r) \<Longrightarrow> \<exists>p. s = p @ RBRACE # r \<and> neutral2 p"
  using parse_shape(3) [of neutral2 s acc, OF neutral2_plain neutral2_append _ neutral2_braces]
    parse_chars_closes2 neutral2_string by blast

lemma parse_chars_prefix:
  assumes "parse_chars (p @ [DQUOTE]) = Some (t, [])"
  shows "parse_chars (p @ q) = (case parse_chars q of None \<Rightarrow> None | Some (t', r) \<Rightarrow> Some (t @ t', r))"
  using assms
proof (induction p arbitrary: t rule: parse_chars.induct)
  case 1
  then show ?case by (auto split: option.splits)
next
  case (2 c cs)
  show ?case
  proof (cases "c = DQUOTE")
    case True
    with 2(4) show ?thesis by simp
  next
    case nq: False
    show ?thesis
    proof (cases "c = BACKSLASH")
      case bs: True
      show ?thesis
      proof (cases cs)
        case Nil
        with 2(4) nq bs show ?thesis by (simp add: simple_escape_def)
      next
        case (Cons e cs')
        show ?thesis
        proof (cases "e = 0x75")
          case u: True
          from 2(4) nq bs Cons u obtain uu where h: "hex4 (take 4 (cs' @ [DQUOTE])) = Some uu"
            by (auto split: option.splits)
          from hex4_length [OF h] hex_not_special
          have "length (take 4 (cs' @ [DQUOTE])) = 4" "DQUOTE \<notin> set (take 4 (cs' @ [DQUOTE]))"
            by blast+
          then have len: "4 \<le> length cs'"
            by (cases "4 \<le> length cs'") (auto simp: not_le)
          then have tk: "take 4 (cs' @ x) = take 4 cs'" and dr: "drop 4 (cs' @ x) = drop 4 cs' @ x" for x
            by simp_all
          have h': "hex4 (take 4 cs') = Some uu" using h unfolding tk .
          from 2(4) nq bs Cons u h' obtain t' where
            pc: "parse_chars (drop 4 cs' @ [DQUOTE]) = Some (t', [])" and t: "t = uu # t'"
            using len by (auto split: option.splits)
          from 2(1) [OF nq bs Cons u h' pc]
          show ?thesis using nq bs Cons u h' t len by (auto split: option.splits)
        next
          case nu: False
          from 2(4) nq bs Cons nu obtain d where se: "simple_escape e = Some d"
            by (auto split: option.splits)
          from 2(4) nq bs Cons nu se obtain t' where
            pc: "parse_chars (cs' @ [DQUOTE]) = Some (t', [])" and t: "t = d # t'"
            by (auto split: option.splits)
          from 2(2) [OF nq bs Cons nu se pc]
          show ?thesis using nq bs Cons nu se t by (auto split: option.splits)
        qed
      qed
    next
      case nbs: False
      from 2(4) nq nbs have ok: "\<not> c < 0x20" by (auto split: if_splits)
      with 2(4) nq nbs obtain t' where
        pc: "parse_chars (cs @ [DQUOTE]) = Some (t', [])" and t: "t = c # t'"
        by (auto split: option.splits)
      from 2(3) [OF nq nbs ok pc]
      show ?thesis using nq nbs ok t by (auto split: option.splits)
    qed
  qed
qed

lemma denotes_parse_chars: "denotes body t \<Longrightarrow> parse_chars (body @ DQUOTE # r) = Some (t, r)"
  using parse_chars_prefix [of body t "DQUOTE # r"] by (simp add: denotes_def)

lemma denotes_escaped_quote:
  assumes "denotes ur u" and "denotes vr v"
  shows "denotes (ur @ [BACKSLASH, DQUOTE] @ vr) (u @ [DQUOTE] @ v)"
proof -
  have "parse_chars ([BACKSLASH, DQUOTE] @ vr @ [DQUOTE]) = Some (DQUOTE # v, [])"
    using assms(2) by (simp add: denotes_def simple_escape_def)
  then show ?thesis
    using parse_chars_prefix [of ur u "[BACKSLASH, DQUOTE] @ vr @ [DQUOTE]"] assms(1)
    by (simp add: denotes_def)
qed

lemma skip_ws_simps [simp]:
  "skip_ws (LBRACE # s) = LBRACE # s" "skip_ws (RBRACE # s) = RBRACE # s"
  "skip_ws (LBRACKET # s) = LBRACKET # s" "skip_ws (RBRACKET # s) = RBRACKET # s"
  "skip_ws (DQUOTE # s) = DQUOTE # s" "skip_ws (COLON # s) = COLON # s"
  "skip_ws (COMMA # s) = COMMA # s" "skip_ws [] = []"
  by (simp_all add: skip_ws_def is_json_ws_def)

lemma parse_value_string:
  "denotes body t \<Longrightarrow> parse_value (DQUOTE # body @ DQUOTE # r) = Some (JStr t, r)"
  by (subst parse_value.simps) (simp add: denotes_parse_chars)

lemma parse_chars_title: \<open>parse_chars (js ''title"'' @ r) = Some (js ''title'', r)\<close>
  by (simp add: js_def)

lemma parse_chars_content: \<open>parse_chars (js ''content"'' @ r) = Some (js ''content'', r)\<close>
  by (simp add: js_def)

lemma parse_chars_slides: \<open>parse_chars (js ''slides"'' @ r) = Some (js ''slides'', r)\<close>
  by (simp add: js_def)

lemma slide_json_unfold:
  \<open>slide_json tr cr @ r =
     LBRACE # DQUOTE # js ''title"'' @ COLON # DQUOTE # tr @ DQUOTE # COMMA # DQUOTE #
       js ''content"'' @ COLON # DQUOTE # cr @ DQUOTE # RBRACE # r\<close>
  by (simp add: slide_json_def js_def)

lemma parse_value_slide:
  assumes "denotes tr t" and "denotes cr c"
  shows "parse_value (slide_json tr cr @ r) = Some (slide_value t c, r)"
proof -
  let ?r3 = \<open>DQUOTE # js ''content"'' @ COLON # DQUOTE # cr @ DQUOTE # RBRACE # r\<close>
  let ?r1 = "DQUOTE # tr @ DQUOTE # COMMA # ?r3"
  let ?m = \<open>DQUOTE # js ''title"'' @ COLON # ?r1\<close>
  have v2: "parse_value (DQUOTE # cr @ DQUOTE # RBRACE # r) = Some (JStr c, RBRACE # r)"
    using assms(2) by (rule parse_value_string)
  have ne: "js ''title'' \<noteq> js ''content''" by (simp add: js_def)
  have m2: "parse_members ?r3 [(js ''title'', JStr t)] =
            Some ([(js ''title'', JStr t), (js ''content'', JStr c)], r)"
    by (subst parse_members.simps) (simp add: parse_chars_content v2 ne)
  have v1: "parse_value ?r1 = Some (JStr t, COMMA # ?r3)"
    using assms(1) by (rule parse_value_string)
  have m1: "parse_members ?m [] = Some ([(js ''title'', JStr t), (js ''content'', JStr c)], r)"
    by (subst parse_members.simps) (simp add: parse_chars_title v1 m2)
  have "parse_value (LBRACE # ?m) = Some (slide_value t c, r)"
    by (subst parse_value.simps) (simp add: m1 slide_value_def)
  then show ?thesis by (simp add: slide_json_unfold)
qed

lemma slide_json_object_text:
  "denotes tr t \<Longrightarrow> denotes cr c \<Longrightarrow> object_text (slide_json tr cr) (slide_value t c)"
  by (simp add: object_text_def parse_value_slide) (simp add: slide_json_def js_def)

lemma parse_elements_join:
  assumes "list_all2 object_text xs vs" and "xs \<noteq> []"
  shows "parse_elements (join_comma xs @ RBRACKET # r) acc = Some (acc @ vs, r)"
  using assms
proof (induction xs arbitrary: vs acc rule: join_comma.induct)
  case 1
  then show ?case by simp
next
  case (2 x)
  then obtain v where v0: "vs = [v]" "object_text x v"
    by (auto simp: list_all2_Cons1)
  then have v: "vs = [v]" "\<And>r. parse_value (x @ r) = Some (v, r)"
    by (simp_all add: object_text_def)
  show ?case by (subst parse_elements.simps) (simp add: v)
next
  case (3 x y xs)
  from 3(2) obtain v vs' where v0: "vs = v # vs'" "object_text x v"
    and vs': "list_all2 object_text (y # xs) vs'"
    by (auto simp: list_all2_Cons1)
  then have v: "vs = v # vs'" "\<And>r. parse_value (x @ r) = Some (v, r)"
    by (simp_all add: object_text_def)
  have "parse_elements (join_comma (y # xs) @ RBRACKET # r) (acc @ [v]) = Some ((acc @ [v]) @ vs', r)"
    using vs' by (intro 3(1)) simp_all
  then show ?case
    by (subst parse_elements.simps) (simp add: v)
qed

lemma batch_json_unfold:
  \<open>batch_json xs @ r = LBRACE # DQUOTE # js ''slides"'' @ COLON # LBRACKET # join_comma xs @ RBRACKET # RBRACE # r\<close>
  by (simp add: batch_json_def js_def)

lemma join_comma_hd:
  "list_all2 object_text xs vs \<Longrightarrow> xs \<noteq> [] \<Longrightarrow> \<exists>y. join_comma xs = LBRACE # y"
  by (induction xs arbitrary: vs rule: join_comma.induct)
     (auto simp: object_text_def list_all2_Cons1)

lemma parse_value_batch:
  assumes "list_all2 object_text xs vs"
  shows "parse_value (batch_json xs @ r) = Some (JObj [(js ''slides'', JArr vs)], r)"
proof -
  let ?arr = "LBRACKET # join_comma xs @ RBRACKET # RBRACE # r"
  have arr: "parse_value ?arr = Some (JArr vs, RBRACE # r)"
  proof (cases "xs = []")
    case True
    with assms have "vs = []" by simp
    with True show ?thesis by (subst parse_value.simps) simp
  next
    case False
    from join_comma_hd [OF assms False] obtain y where j: "join_comma xs = LBRACE # y" by blast
    have "parse_elements (join_comma xs @ RBRACKET # RBRACE # r) [] = Some ([] @ vs, RBRACE # r)"
      using assms False by (rule parse_elements_join)
    then have pe: "parse_elements (LBRACE # y @ RBRACKET # RBRACE # r) [] = Some (vs, RBRACE # r)"
      by (simp add: j)
    show ?thesis
      by (subst parse_value.simps) (simp add: j pe)
  qed
  have m: \<open>parse_members (DQUOTE # js ''slides"'' @ COLON # ?arr) [] = Some ([(js ''slides'', JArr vs)], r)\<close>
    by (subst parse_members.simps) (simp add: parse_chars_slides arr)
  have \<open>parse_value (LBRACE # DQUOTE # js ''slides"'' @ COLON # ?arr) = Some (JObj [(js ''slides'', JArr vs)], r)\<close>
    by (subst parse_value.simps) (simp add: m)
  then show ?thesis by (simp add: batch_json_unfold)
qed

lemma batch_json_members:
  assumes "list_all2 object_text xs vs"
  shows "object_members (batch_json xs) = Some [(js ''slides'', JArr vs)]"
  using parse_value_batch [OF assms, of "[]"]
  by (simp add: object_members_def) (simp add: batch_json_def js_def)

lemma batch_json_slides:
  assumes "list_all2 object_text xs vs"
  shows "batch_slides (batch_json xs) = Some vs"
  using batch_json_members [OF assms]
  by (simp add: batch_slides_def slides_member_def)

lemma batch_slides_members: "batch_slides b = Some slides \<Longrightarrow> object_members b \<noteq> None"
  by (auto simp: batch_slides_def split: option.splits)

lemma batch_slides_object_slides: "batch_slides b = Some slides \<Longrightarrow> object_slides b = slides"
  by (simp add: object_slides_def)

lemma batches_objects:
  "list_all2 (\<lambda>b slides. batch_slides b = Some slides \<and> P slides) bs sss \<Longrightarrow>
     (\<forall>b\<in>set bs. object_members b \<noteq> None) \<and> map object_slides bs = sss"
  by (induction rule: list_all2_induct)
     (auto dest: batch_slides_members batch_slides_object_slides)

text \<open>
  Claim C1 (as amended). Let a buffer be the concatenation, without separators, of \<open>N\<close>
  complete batch objects, each the text of a JSON object (from its opening to its closing
  brace) whose \<^verbatim>\<open>slides\<close> member is an array of \<open>k\<close> slides, and let the buffer contain
  no fence marker \<^verbatim>\<open>```\<close>. Then \<^verbatim>\<open>parseLiveStream(buffer, true)\<close> returns exactly the
  \<open>N \<times> k\<close> slides, in input order, and an empty \<^verbatim>\<open>inProgressHtml\<close>.
\<close>

theorem complete_batches_in_order:
  assumes "list_all2 (\<lambda>b slides. batch_slides b = Some slides \<and> length slides = k) bs sss"
    and "\<not> js_includes (concat bs) (js ''```'')"
  shows "parseLiveStream (concat bs) True = \<lparr>completeSlides = concat sss, inProgressHtml = []\<rparr>
       \<and> length (concat sss) = length bs * k"
proof
  from batches_objects [OF assms(1)]
  have o: "\<forall>b\<in>set bs. object_members b \<noteq> None" and m: "map object_slides bs = sss" by auto
  show "parseLiveStream (concat bs) True = \<lparr>completeSlides = concat sss, inProgressHtml = []\<rparr>"
    using parse_objects [OF o assms(2), of True] m by simp
  show "length (concat sss) = length bs * k"
    using assms(1) by (induction rule: list_all2_induct) simp_all
qed

lemma batch_A_slides: "batch_slides batch_A = Some [slide_A]"
  by code_simp

lemma batch_B_slides: "batch_slides batch_B = Some [slide_B]"
  by code_simp

lemma no_fence_AB: "\<not> js_includes (batch_A @ batch_B) (js ''```'')"
  by code_simp

text \<open>
  The example of the specification: two batches of one slide each.
\<close>

theorem complete_batches_in_order_witness:
  "parseLiveStream (batch_A @ batch_B) True =
     \<lparr>completeSlides = [slide_A, slide_B], inProgressHtml = []\<rparr>"
  using complete_batches_in_order [of 1 "[batch_A, batch_B]" "[[slide_A], [slide_B]]"]
    batch_A_slides batch_B_slides no_fence_AB
  by simp

text \<open>
  Claim C1 as stated fails where a slide's text contains a fence marker: the cleaning step
  removes the marker inside the content string too, so the slide returned for the valid
  batch below has the empty content, not the content \<^verbatim>\<open>```\<close> of the input.
\<close>

theorem fence_inside_content_is_removed:
  "batch_slides batch_fenced = Some [slide_value (js ''A'') (js ''```'')]
   \<and> completeSlides (parseLiveStream batch_fenced True) = [slide_value (js ''A'') []]"
  by code_simp

text \<open>
  Claim C2 (as amended). A top-level object that parses successfully but has no
  \<^verbatim>\<open>slides\<close> array is not a failure of the parse pass: it contributes no slide, the
  cursor moves past it and the scan goes on, so that the slides of all the batches before
  and after it are returned (for buffers without fence markers).
\<close>

theorem object_without_slides_is_skipped:
  assumes "list_all2 (\<lambda>b slides. batch_slides b = Some slides) before sss1"
    and "object_members bad \<noteq> None" and "batch_slides bad = None"
    and "list_all2 (\<lambda>b slides. batch_slides b = Some slides) after sss2"
    and "\<not> js_includes (concat before @ bad @ concat after) (js ''```'')"
  shows "parseLiveStream (concat before @ bad @ concat after) isStreamComplete =
         \<lparr>completeSlides = concat sss1 @ concat sss2, inProgressHtml = []\<rparr>"
proof -
  have 1: "list_all2 (\<lambda>b slides. batch_slides b = Some slides \<and> True) before sss1"
    and 2: "list_all2 (\<lambda>b slides. batch_slides b = Some slides \<and> True) after sss2"
    using assms(1,4) by simp_all
  from batches_objects [OF 1] batches_objects [OF 2] assms(2)
  have o: "\<forall>b\<in>set (before @ [bad] @ after). object_members b \<noteq> None"
    and m: "map object_slides before = sss1" "map object_slides after = sss2" by auto
  have f: "\<not> js_includes (concat (before @ [bad] @ after)) (js ''```'')"
    using assms(5) by simp
  have "object_slides bad = []" using assms(3) by (simp add: object_slides_def)
  with parse_objects [OF o f, of isStreamComplete] m show ?thesis by simp
qed

lemma not_a_batch_facts: "object_members not_a_batch \<noteq> None \<and> batch_slides not_a_batch = None"
  by code_simp

lemma no_fence_AnB: "\<not> js_includes (batch_A @ not_a_batch @ batch_B) (js ''```'')"
  by code_simp

text \<open>
  An object without \<^verbatim>\<open>slides\<close> between two batches.
\<close>

theorem object_without_slides_is_skipped_witness:
  "parseLiveStream (batch_A @ not_a_batch @ batch_B) False =
     \<lparr>completeSlides = [slide_A, slide_B], inProgressHtml = []\<rparr>"
  using object_without_slides_is_skipped [of "[batch_A]" "[[slide_A]]" not_a_batch "[batch_B]" "[[slide_B]]" False]
    batch_A_slides batch_B_slides not_a_batch_facts no_fence_AnB
  by simp

text \<open>
  Claim C2 as stated fails: the object \<^verbatim>\<open>{"foo":1}\<close> parses and has no \<^verbatim>\<open>slides\<close> array,
  yet the pass does not end in a failure; it goes on and returns the slide of the batch
  that follows.
\<close>

theorem missing_slides_array_not_terminal:
  \<open>parseLiveStream (js ''{"foo":1}{"slides":[{"title":"A","content":"x"}]}'') True =
     \<lparr>completeSlides = [slide_value (js ''A'') (js ''x'')], inProgressHtml = []\<rparr>\<close>
  by code_simp

lemma batches_objects2:
  "list_all2 (\<lambda>b slides. batch_slides b = Some slides) bs sss \<Longrightarrow>
     (\<forall>b\<in>set bs. object_members b \<noteq> None) \<and> map object_slides bs = sss"
  using batches_objects [of "\<lambda>_. True" bs sss] by simp

lemma quoted_buffer_facts:
  "denotes (js ''A'') (js ''A'') \<and> denotes (js ''<p class='') (js ''<p class='')
   \<and> denotes (js ''x'' @ [BACKSLASH, DQUOTE] @ js ''>hi</p>'') (js ''x'' @ [DQUOTE] @ js ''>hi</p>'')
   \<and> denotes (js ''Intro'') (js ''Intro'') \<and> denotes (js ''<h1>Hello</h1>'') (js ''<h1>Hello</h1>'')
   \<and> \<not> js_includes quoted_buffer (js ''```'')"
  by code_simp


lemma scan1_inside:
  "inside_string p \<Longrightarrow> inString st \<Longrightarrow> scan1 s p i st = st"
proof (induction p arbitrary: i rule: inside_string.induct)
  case 1
  then show ?case by simp
next
  case (2 c)
  then show ?case by (simp add: phase1_char_in_string)
next
  case (3 c d cs)
  show ?case
  proof (cases "c = BACKSLASH")
    case True
    with 3 show ?thesis by simp
  next
    case False
    with 3(3) have "c \<noteq> DQUOTE" "inside_string (d # cs)" by simp_all
    with 3(2) [OF False] 3(4) False show ?thesis
      by (simp add: phase1_char_in_string)
  qed
qed

lemma scan2_inside:
  "inside_string p \<Longrightarrow> slideInString st \<Longrightarrow> scan2 s p i st = st"
proof (induction p arbitrary: i rule: inside_string.induct)
  case 1
  then show ?case by simp
next
  case (2 c)
  then show ?case by (simp add: phase2_char_in_string)
next
  case (3 c d cs)
  show ?case
  proof (cases "c = BACKSLASH")
    case True
    with 3 show ?thesis by simp
  next
    case False
    with 3(3) have "c \<noteq> DQUOTE" "inside_string (d # cs)" by simp_all
    with 3(2) [OF False] 3(4) False show ?thesis
      by (simp add: phase2_char_in_string)
  qed
qed

lemma string_neutral:
  assumes "denotes b t"
  shows "neutral1 (DQUOTE # b @ [DQUOTE])" and "neutral2 (DQUOTE # b @ [DQUOTE])"
proof -
  from assms have p: "parse_chars (b @ [DQUOTE]) = Some (t, [])" by (simp add: denotes_def)
  from parse_chars_closes [OF p] have "closes_string1 (b @ [DQUOTE])" by simp
  then show "neutral1 (DQUOTE # b @ [DQUOTE])" by (rule neutral1_string)
  from parse_chars_closes2 [OF p] have "closes_string2 (b @ [DQUOTE])" by simp
  then show "neutral2 (DQUOTE # b @ [DQUOTE])" by (rule neutral2_string)
qed

lemma denotes_title: "denotes (js ''title'') (js ''title'')"
  by (simp add: denotes_def js_def)

lemma denotes_content: "denotes (js ''content'') (js ''content'')"
  by (simp add: denotes_def js_def)

lemma denotes_slides: "denotes (js ''slides'') (js ''slides'')"
  by (simp add: denotes_def js_def)

lemma plain_COLON: "plain COLON" and plain_COMMA: "plain COMMA" and plain_LBRACKET: "plain LBRACKET"
  by (simp_all add: plain_def)

lemma slide_head_split:
  "slide_head tr =
     (DQUOTE # js ''title'' @ [DQUOTE]) @ [COLON] @ (DQUOTE # tr @ [DQUOTE]) @ [COMMA]
       @ (DQUOTE # js ''content'' @ [DQUOTE]) @ [COLON]"
  by (simp add: slide_head_def js_def)

lemma slide_head_neutral:
  assumes "denotes tr t"
  shows "neutral1 (slide_head tr)" and "neutral2 (slide_head tr)"
proof -
  have c1: "neutral1 [COLON]" "neutral1 [COMMA]"
    by (rule neutral1_plain, simp add: plain_def)+
  have c2: "neutral2 [COLON]" "neutral2 [COMMA]"
    by (rule neutral2_plain, simp add: plain_def)+
  show "neutral1 (slide_head tr)"
    unfolding slide_head_split
    by (intro neutral1_append string_neutral(1) [OF denotes_title]
        string_neutral(1) [OF denotes_content] string_neutral(1) [OF assms] c1)
  show "neutral2 (slide_head tr)"
    unfolding slide_head_split
    by (intro neutral2_append string_neutral(2) [OF denotes_title]
        string_neutral(2) [OF denotes_content] string_neutral(2) [OF assms] c2)
qed

lemma slide_json_split:
  "slide_json tr cr = LBRACE # (slide_head tr @ DQUOTE # cr @ [DQUOTE]) @ [RBRACE]"
  by (simp add: slide_json_def slide_head_def js_def)

lemma slide_inner_neutral:
  assumes "denotes tr t" and "denotes cr c"
  shows "neutral1 (slide_head tr @ DQUOTE # cr @ [DQUOTE])"
    and "neutral2 (slide_head tr @ DQUOTE # cr @ [DQUOTE])"
  using slide_head_neutral [OF assms(1)] string_neutral [OF assms(2)]
  by (simp_all add: neutral1_append neutral2_append)

lemma slide_json_neutral1:
  assumes "denotes tr t" and "denotes cr c"
  shows "neutral1 (slide_json tr cr)"
  unfolding slide_json_split using slide_inner_neutral(1) [OF assms] by (rule neutral1_braces)

lemma JSON_parse_slide:
  assumes "denotes tr t" and "denotes cr c"
  shows "JSON_parse (slide_json tr cr) = Some (slide_value t c)"
  using parse_value_slide [OF assms, of "[]"] by (simp add: JSON_parse_def)

lemma js_get_slide:
  "js_get (slide_value t c) (js ''title'') = Inr (Some (JStr t))"
  "js_get (slide_value t c) (js ''content'') = Inr (Some (JStr c))"
  by (simp_all add: js_get_def slide_value_def js_def)

lemma close_slide_rendered:
  assumes "denotes tr t" and "denotes cr c" and "t \<noteq> []" and "c \<noteq> []"
    and fresh: "some_title_eq (p2_slides st) (Some (JStr t)) = Inr False"
    and j: "j + 1 = length pre + length (slide_json tr cr)"
    and st: "slideStartIndex st = int (length pre)"
  shows "close_slide (pre @ slide_json tr cr @ post) j st =
         st\<lparr>p2_slides := p2_slides st @ [slide_value t c], lastParsedSlideEnd := j + 1,
            slideStartIndex := - 1\<rparr>"
proof -
  have "substring (pre @ slide_json tr cr @ post) (nat (slideStartIndex st)) (j + 1) = slide_json tr cr"
    using substring_middle [of pre "slide_json tr cr" post] j st by simp
  then show ?thesis
    using assms(3,4) fresh
    by (simp add: close_slide_def Let_def JSON_parse_slide [OF assms(1,2)] js_get_slide truthy_def)
qed

lemma scan2_slide:
  assumes "denotes tr t" and "denotes cr c" and "t \<noteq> []" and "c \<noteq> []"
    and fresh: "some_title_eq acc (Some (JStr t)) = Inr False"
  shows "scan2 (pre @ slide_json tr cr @ post) (slide_json tr cr @ post) (length pre) (slide_state n acc) =
         scan2 (pre @ slide_json tr cr @ post) post (length pre + length (slide_json tr cr))
           (slide_state (length pre + length (slide_json tr cr)) (acc @ [slide_value t c]))"
proof -
  let ?b = "slide_json tr cr"
  let ?s = "pre @ ?b @ post"
  let ?i = "length pre"
  define inner where "inner = slide_head tr @ DQUOTE # cr @ [DQUOTE]"
  have b: "?b = LBRACE # inner @ [RBRACE]" unfolding inner_def by (rule slide_json_split)
  have ni: "neutral2 inner" unfolding inner_def using assms(1,2) by (rule slide_inner_neutral(2))
  from ni have ei: "esc_closed inner" by (simp add: neutral2_def)
  have eb: "esc_closed ?b" unfolding b using ei by (simp add: esc_closed_Cons esc_closed_append)
  let ?st1 = "(slide_state n acc)\<lparr>slideStartIndex := int ?i, slideBraceCount := 1\<rparr>"
  have o: "phase2_char s ?i LBRACE (slide_state n acc) = ?st1" for s
    by (simp add: phase2_char_def slide_state_def)
  have n1: "nested2 ?st1" by (simp add: nested2_def slide_state_def)
  let ?j = "?i + 1 + length inner"
  have j: "?j + 1 = length pre + length ?b" unfolding b by simp
  have c: "phase2_char ?s ?j RBRACE ?st1 =
           slide_state (length pre + length ?b) (acc @ [slide_value t c])"
  proof -
    have "phase2_char ?s ?j RBRACE ?st1 = close_slide ?s ?j (?st1\<lparr>slideBraceCount := 0\<rparr>)"
      by (simp add: phase2_char_def slide_state_def Let_def)
    also have "\<dots> = (?st1\<lparr>slideBraceCount := 0\<rparr>)\<lparr>p2_slides := p2_slides (?st1\<lparr>slideBraceCount := 0\<rparr>) @ [slide_value t c],
        lastParsedSlideEnd := ?j + 1, slideStartIndex := - 1\<rparr>"
      using assms(1-4) _ j by (rule close_slide_rendered) (simp_all add: slide_state_def fresh)
    also have "\<dots> = slide_state (length pre + length ?b) (acc @ [slide_value t c])"
      using j by (simp add: slide_state_def)
    finally show ?thesis .
  qed
  have "scan2 ?s (?b @ post) ?i (slide_state n acc) =
        scan2 ?s post (?i + length ?b) (scan2 ?s ?b ?i (slide_state n acc))"
    using eb by (rule scan2_append)
  also have "scan2 ?s ?b ?i (slide_state n acc) = scan2 ?s (inner @ [RBRACE]) (?i + 1) ?st1"
    unfolding b using o by (simp add: scan2_Cons)
  also have "\<dots> = scan2 ?s [RBRACE] ?j (scan2 ?s inner (?i + 1) ?st1)"
    using ei by (rule scan2_append)
  also have "scan2 ?s inner (?i + 1) ?st1 = ?st1"
    using ni n1 by (simp add: neutral2_def)
  also have "scan2 ?s [RBRACE] ?j ?st1 = slide_state (length pre + length ?b) (acc @ [slide_value t c])"
    using c by simp
  finally show ?thesis .
qed

lemma rendered_slides_Cons:
  "rendered_slides ((tr, cr) # finished) =
     slide_json tr cr @ (if finished = [] then [] else COMMA # rendered_slides finished)"
  by (cases finished) (simp_all add: rendered_slides_def)

lemma phase2_char_comma: "phase2_char s j COMMA st = st"
  by (rule phase2_char_plain) (simp add: plain_def)

lemma scan2_closed:
  assumes "list_all2 (\<lambda>(tr, cr) (t, c). denotes tr t \<and> denotes cr c \<and> t \<noteq> [] \<and> c \<noteq> []) finished vs"
    and "fresh_titles acc vs"
  shows "scan2 (pre @ rendered_slides finished @ post) (rendered_slides finished @ post) (length pre)
           (slide_state n acc) =
         scan2 (pre @ rendered_slides finished @ post) post (length pre + length (rendered_slides finished))
           (slide_state (if finished = [] then n else length pre + length (rendered_slides finished))
              (acc @ slide_values vs))"
  using assms
proof (induction finished arbitrary: pre n acc vs)
  case Nil
  then show ?case by (simp add: rendered_slides_def slide_values_def)
next
  case (Cons x finished)
  obtain tr cr where x: "x = (tr, cr)" by (cases x)
  from Cons.prems(1) x obtain t c vs' where vs: "vs = (t, c) # vs'"
    and d: "denotes tr t" "denotes cr c" "t \<noteq> []" "c \<noteq> []"
    and rest: "list_all2 (\<lambda>(tr, cr) (t, c). denotes tr t \<and> denotes cr c \<and> t \<noteq> [] \<and> c \<noteq> []) finished vs'"
    by (auto simp: list_all2_Cons1)
  from Cons.prems(2) vs have fr: "some_title_eq acc (Some (JStr t)) = Inr False"
    and fr': "fresh_titles (acc @ [slide_value t c]) vs'" by simp_all
  let ?x = "slide_json tr cr"
  let ?acc' = "acc @ [slide_value t c]"
  show ?case
  proof (cases "finished = []")
    case True
    with rest have "vs' = []" by simp
    with True x vs scan2_slide [OF d fr, of pre post n] show ?thesis
      by (simp add: rendered_slides_Cons slide_values_def)
  next
    case False
    let ?J = "rendered_slides finished"
    let ?s = "pre @ ?x @ (COMMA # ?J @ post)"
    let ?pre' = "pre @ ?x @ [COMMA]"
    have s: "?s = ?pre' @ ?J @ post" by simp
    have "scan2 ?s (?x @ (COMMA # ?J @ post)) (length pre) (slide_state n acc) =
          scan2 ?s (COMMA # ?J @ post) (length pre + length ?x) (slide_state (length pre + length ?x) ?acc')"
      using d fr by (rule scan2_slide)
    also have "\<dots> = scan2 ?s (?J @ post) (length pre + length ?x + 1) (slide_state (length pre + length ?x) ?acc')"
      by (simp add: scan2_Cons phase2_char_comma)
    also have "\<dots> = scan2 (?pre' @ ?J @ post) (?J @ post) (length ?pre') (slide_state (length pre + length ?x) ?acc')"
      by simp
    also have "\<dots> = scan2 (?pre' @ ?J @ post) post (length ?pre' + length ?J)
           (slide_state (if finished = [] then length pre + length ?x else length ?pre' + length ?J)
              (?acc' @ slide_values vs'))"
      using rest fr' by (rule Cons.IH)
    finally show ?thesis
      using False x vs by (simp add: rendered_slides_Cons slide_values_def add.assoc)
  qed
qed

lemma rendered_neutral1:
  assumes "list_all2 (\<lambda>(tr, cr) (t, c). denotes tr t \<and> denotes cr c \<and> t \<noteq> [] \<and> c \<noteq> []) finished vs"
  shows "neutral1 (rendered_slides finished)"
  using assms
proof (induction finished arbitrary: vs)
  case Nil
  show ?case unfolding rendered_slides_def by (simp add: neutral1_plain)
next
  case (Cons x finished)
  obtain tr cr where x: "x = (tr, cr)" by (cases x)
  from Cons.prems x obtain t c vs' where d: "denotes tr t" "denotes cr c"
    and rest: "list_all2 (\<lambda>(tr, cr) (t, c). denotes tr t \<and> denotes cr c \<and> t \<noteq> [] \<and> c \<noteq> []) finished vs'"
    by (auto simp: list_all2_Cons1)
  have 1: "neutral1 (slide_json tr cr)" using d by (rule slide_json_neutral1)
  have 2: "neutral1 (rendered_slides finished)" using rest by (rule Cons.IH)
  have 3: "neutral1 [COMMA]" by (rule neutral1_plain) (simp add: plain_def)
  show ?case
  proof (cases "finished = []")
    case True
    with 1 x show ?thesis by (simp add: rendered_slides_Cons)
  next
    case False
    have "neutral1 (slide_json tr cr @ [COMMA] @ rendered_slides finished)"
      by (intro neutral1_append 1 2 3)
    with False x show ?thesis by (simp add: rendered_slides_Cons)
  qed
qed

lemma batch_opener_split:
  \<open>js ''{"slides":['' = LBRACE # (DQUOTE # js ''slides'' @ [DQUOTE]) @ [COLON] @ [LBRACKET]\<close>
  by (simp add: js_def)

lemma batch_opener_neutral1:
  "neutral1 ((DQUOTE # js ''slides'' @ [DQUOTE]) @ [COLON] @ [LBRACKET])"
proof -
  have "neutral1 [COLON]" "neutral1 [LBRACKET]"
    by (rule neutral1_plain, simp add: plain_def)+
  then show ?thesis
    by (intro neutral1_append string_neutral(1) [OF denotes_slides])
qed

lemma phase1_open:
  assumes "list_all2 (\<lambda>(tr, cr) (t, c). denotes tr t \<and> denotes cr c \<and> t \<noteq> [] \<and> c \<noteq> []) finished vs"
    and "quiet1 tail"
  shows \<open>lastValidBatchEndIndex
           (scan1 s (js ''{"slides":['' @ rendered_slides finished @ tail) i (root_state n acc)) = n
         \<and> p1_slides
           (scan1 s (js ''{"slides":['' @ rendered_slides finished @ tail) i (root_state n acc)) = acc\<close>
proof -
  let ?K = "(DQUOTE # js ''slides'' @ [DQUOTE]) @ [COLON] @ [LBRACKET]"
  let ?J = "rendered_slides finished"
  let ?st1 = "(root_state n acc)\<lparr>currentObjectStartIndex := int i, braceCount := 1\<rparr>"
  have nk: "neutral1 (?K @ ?J)"
    using batch_opener_neutral1 rendered_neutral1 [OF assms(1)] by (rule neutral1_append)
  then have ek: "esc_closed (?K @ ?J)" by (simp add: neutral1_def)
  have n1: "nested1 ?st1" by (simp add: nested1_def root_state_def)
  have o: "phase1_char s i LBRACE (root_state n acc) = ?st1"
    by (simp add: phase1_char_def root_state_def)
  have "scan1 s (LBRACE # (?K @ ?J) @ tail) i (root_state n acc) =
        scan1 s ((?K @ ?J) @ tail) (i + 1) ?st1"
    using o by (simp add: scan1_Cons)
  also have "\<dots> = scan1 s tail (i + 1 + length (?K @ ?J)) (scan1 s (?K @ ?J) (i + 1) ?st1)"
    using ek by (rule scan1_append)
  also have "scan1 s (?K @ ?J) (i + 1) ?st1 = ?st1"
    using nk n1 by (simp add: neutral1_def)
  finally have e: \<open>scan1 s (js ''{"slides":['' @ ?J @ tail) i (root_state n acc) =
      scan1 s tail (i + 1 + length (?K @ ?J)) ?st1\<close>
    unfolding batch_opener_split by simp
  from assms(2) n1 have "lastValidBatchEndIndex (scan1 s tail (i + 1 + length (?K @ ?J)) ?st1) = n"
    "p1_slides (scan1 s tail (i + 1 + length (?K @ ?J)) ?st1) = acc"
    unfolding quiet1_def by (simp_all add: root_state_def)
  then show ?thesis unfolding e by simp
qed

lemma slides_key_found:
  \<open>regex_search (match_key_opener (js ''"slides"'') LBRACKET) (js ''{"slides":['' @ r) 0 = Some (1, 10)\<close>
  by (simp add: match_key_opener_def js_def is_js_space_def)

lemma parse_open_batch:
  assumes ear: "\<forall>b\<in>set earlier. object_members b \<noteq> None"
    and ok: "list_all2 (\<lambda>(tr, cr) (t, c). denotes tr t \<and> denotes cr c \<and> t \<noteq> [] \<and> c \<noteq> []) finished vs"
    and fresh: "fresh_titles (concat (map object_slides earlier)) vs"
    and q1: "quiet1 tail" and q2: "quiet2 tail"
    and buf: \<open>buffer = concat earlier @ js ''{"slides":['' @ rendered_slides finished @ tail\<close>
    and nofence: "\<not> js_includes buffer (js ''```'')"
    and last: "\<not> is_js_space (last buffer)"
  shows "parseLiveStream buffer isStreamComplete =
         \<lparr>completeSlides = concat (map object_slides earlier) @ slide_values vs,
          inProgressHtml = (if isStreamComplete then [] else in_progress_html tail)\<rparr>"
proof -
  let ?D = "concat earlier"
  let ?J = "rendered_slides finished"
  let ?O = \<open>js ''{"slides":['' @ ?J @ tail\<close>
  let ?acc = "concat (map object_slides earlier)"
  have hd: "hd buffer = LBRACE"
  proof (cases "earlier = []")
    case True
    with buf show ?thesis by (simp add: js_def)
  next
    case False
    from objects_ends [OF ear False] show ?thesis unfolding buf by simp
  qed
  have ne: "buffer \<noteq> []" unfolding buf by (simp add: js_def)
  have "\<not> is_js_space (hd buffer)" unfolding hd by (simp add: is_js_space_def)
  with last have "buffer = [] \<or> (\<not> is_js_space (hd buffer) \<and> \<not> is_js_space (last buffer))"
    by simp
  with nofence have clean: "clean_stream buffer = buffer" by (rule clean_stream_id)
  have "phase1_loop buffer 0 phase1_init = scan1 buffer buffer 0 (root_state 0 [])"
    by (simp add: phase1_loop_scan1 phase1_init_def root_state_def)
  also have "\<dots> = scan1 ([] @ ?D @ ?O) (?D @ ?O) (length ([]::jsstring)) (root_state (length ([]::jsstring)) [])"
    unfolding buf by simp
  also have "\<dots> = scan1 ([] @ ?D @ ?O) ?O (length ([]::jsstring) + length ?D)
      (root_state (length ([]::jsstring) + length ?D) ([] @ ?acc))"
    using ear by (rule scan1_objects)
  finally have p1: "phase1_loop buffer 0 phase1_init =
      scan1 buffer ?O (length ?D) (root_state (length ?D) ?acc)"
    unfolding buf by simp
  have lv: "lastValidBatchEndIndex (phase1_loop buffer 0 phase1_init) = length ?D"
    and sl: "p1_slides (phase1_loop buffer 0 phase1_init) = ?acc"
    unfolding p1 using phase1_open [OF ok q1] by simp_all
  have rem: "drop (length ?D) buffer = ?O" unfolding buf by simp
  have ss: "drop (1 + 10) ?O = ?J @ tail" by (simp add: js_def)
  have "phase2_loop (?J @ tail) 0 (phase2_init ?acc) =
        scan2 ([] @ ?J @ tail) (?J @ tail) (length ([]::jsstring)) (slide_state 0 ?acc)"
    by (simp add: phase2_loop_scan2 phase2_init_def slide_state_def)
  also have "\<dots> = scan2 ([] @ ?J @ tail) tail (length ([]::jsstring) + length ?J)
      (slide_state (if finished = [] then 0 else length ([]::jsstring) + length ?J) (?acc @ slide_values vs))"
    using ok fresh by (rule scan2_closed)
  finally have p2: "phase2_loop (?J @ tail) 0 (phase2_init ?acc) =
      scan2 (?J @ tail) tail (length ?J)
        (slide_state (if finished = [] then 0 else length ?J) (?acc @ slide_values vs))"
    by simp
  have le: "lastParsedSlideEnd (phase2_loop (?J @ tail) 0 (phase2_init ?acc)) =
        (if finished = [] then 0 else length ?J)"
    and s2: "p2_slides (phase2_loop (?J @ tail) 0 (phase2_init ?acc)) = ?acc @ slide_values vs"
    unfolding p2 using q2 unfolding quiet2_def by blast+
  have act: "drop (if finished = [] then 0 else length ?J) (?J @ tail) = tail"
    by (simp add: rendered_slides_def)
  show ?thesis
    unfolding parseLiveStream_def Let_def clean lv sl rem slides_key_found
    by (simp only: option.case prod.case ss le s2 act) simp
qed

subsection \<open>Finding the content of the slide in progress\<close>

lemma content_first_char:
  \<open>c \<noteq> DQUOTE \<Longrightarrow> match_key_opener (js ''"content"'') DQUOTE (c # r) = None\<close>
  by (simp add: match_key_opener_def js_def)


lemma content_empty:
  \<open>match_key_opener (js ''"content"'') DQUOTE [] = None\<close>
  \<open>match_key_opener (js ''"content"'') DQUOTE [DQUOTE] = None\<close>
  by (simp_all add: match_key_opener_def js_def)
















lemma in_progress_none:
  "in_progress_html [] = []" "in_progress_html [COMMA] = []"
  by (simp_all add: in_progress_html_def content_empty content_first_char)

subsection \<open>Tails that close nothing\<close>

lemma quiet_Nil: "quiet1 []" "quiet2 []"
  by (simp_all add: quiet1_def quiet2_def slide_state_def)

lemma phase1_char_comma: "phase1_char s j COMMA st = st"
  by (rule phase1_char_plain) (simp add: plain_def)

lemma quiet_comma:
  assumes "quiet1 tail" and "quiet2 tail"
  shows "quiet1 (COMMA # tail)" and "quiet2 (COMMA # tail)"
  using assms
  by (simp_all add: quiet1_def quiet2_def scan1_Cons scan2_Cons phase1_char_comma phase2_char_comma
      split: if_splits)

lemma quiet_open_slide:
  assumes "denotes tr t" and "inside_string p"
  shows "quiet1 (open_slide tr p)" and "quiet2 (open_slide tr p)"
proof -
  from slide_head_neutral [OF assms(1)]
  have n1: "neutral1 (slide_head tr)" and n2: "neutral2 (slide_head tr)" by simp_all
  then have e: "esc_closed (slide_head tr)" by (simp add: neutral1_def)
  have "scan1 s (open_slide tr p) i st = st\<lparr>braceCount := braceCount st + 1, inString := True\<rparr>"
    if n: "nested1 st" for s i st
  proof -
    let ?st1 = "st\<lparr>braceCount := braceCount st + 1\<rparr>"
    let ?st2 = "?st1\<lparr>inString := True\<rparr>"
    have o: "phase1_char s i LBRACE st = ?st1" using n by (simp add: phase1_char_def nested1_def)
    have nn: "nested1 ?st1" using n by (simp add: nested1_def)
    have q: "phase1_char s k DQUOTE ?st1 = ?st2" for k
      using n by (simp add: phase1_char_def nested1_def)
    have "scan1 s (open_slide tr p) i st = scan1 s (slide_head tr @ DQUOTE # p) (i + 1) ?st1"
      unfolding open_slide_def using o by (simp add: scan1_Cons)
    also have "\<dots> = scan1 s (DQUOTE # p) (i + 1 + length (slide_head tr)) (scan1 s (slide_head tr) (i + 1) ?st1)"
      using e by (rule scan1_append)
    also have "scan1 s (slide_head tr) (i + 1) ?st1 = ?st1" using n1 nn by (simp add: neutral1_def)
    also have "scan1 s (DQUOTE # p) (i + 1 + length (slide_head tr)) ?st1 =
        scan1 s p (i + 1 + length (slide_head tr) + 1) ?st2"
      using q by (simp add: scan1_Cons)
    also have "\<dots> = ?st2" using assms(2) by (rule scan1_inside) simp
    finally show ?thesis .
  qed
  then show "quiet1 (open_slide tr p)" by (simp add: quiet1_def)
  have "scan2 s (open_slide tr p) j (slide_state n acc) =
        (slide_state n acc)\<lparr>slideStartIndex := int j, slideBraceCount := 1, slideInString := True\<rparr>"
    for s j n acc
  proof -
    let ?st1 = "(slide_state n acc)\<lparr>slideStartIndex := int j, slideBraceCount := 1\<rparr>"
    let ?st2 = "?st1\<lparr>slideInString := True\<rparr>"
    have o: "phase2_char s j LBRACE (slide_state n acc) = ?st1"
      by (simp add: phase2_char_def slide_state_def)
    have nn: "nested2 ?st1" by (simp add: nested2_def slide_state_def)
    have q: "phase2_char s k DQUOTE ?st1 = ?st2" for k
      by (simp add: phase2_char_def slide_state_def)
    have "scan2 s (open_slide tr p) j (slide_state n acc) = scan2 s (slide_head tr @ DQUOTE # p) (j + 1) ?st1"
      unfolding open_slide_def using o by (simp add: scan2_Cons)
    also have "\<dots> = scan2 s (DQUOTE # p) (j + 1 + length (slide_head tr)) (scan2 s (slide_head tr) (j + 1) ?st1)"
      using e by (rule scan2_append)
    also have "scan2 s (slide_head tr) (j + 1) ?st1 = ?st1" using n2 nn by (simp add: neutral2_def)
    also have "scan2 s (DQUOTE # p) (j + 1 + length (slide_head tr)) ?st1 =
        scan2 s p (j + 1 + length (slide_head tr) + 1) ?st2"
      using q by (simp add: scan2_Cons)
    also have "\<dots> = ?st2" using assms(2) by (rule scan2_inside) (simp add: slide_state_def)
    finally show ?thesis by simp
  qed
  then show "quiet2 (open_slide tr p)" by (simp add: quiet2_def slide_state_def)
qed

lemma open_tail_quiet:
  assumes "open_tail tail"
  shows "quiet1 tail \<and> quiet2 tail"
proof -
  consider "tail = []" | "tail = [COMMA]"
    | tr t p where "denotes tr t" "inside_string p" "tail = open_slide tr p"
    | tr t p where "denotes tr t" "inside_string p" "tail = COMMA # open_slide tr p"
    using assms unfolding open_tail_def by blast
  then show ?thesis
  proof cases
    case 1
    then show ?thesis by (simp add: quiet_Nil)
  next
    case 2
    then show ?thesis using quiet_comma [OF quiet_Nil] by simp
  next
    case 3
    then show ?thesis using quiet_open_slide by simp
  next
    case 4
    then show ?thesis using quiet_comma [OF quiet_open_slide [OF 4(1,2)]] by simp
  qed
qed

lemma parse_open_stream:
  assumes "list_all2 (\<lambda>b slides. batch_slides b = Some slides) earlier sss"
    and "list_all2 (\<lambda>(tr, cr) (t, c). denotes tr t \<and> denotes cr c \<and> t \<noteq> [] \<and> c \<noteq> []) finished vs"
    and "fresh_titles (concat sss) vs"
    and "quiet1 tail \<and> quiet2 tail"
    and \<open>buffer = concat earlier @ js ''{"slides":['' @ rendered_slides finished @ tail\<close>
    and "\<not> js_includes buffer (js ''```'')"
    and "\<not> is_js_space (last buffer)"
  shows "parseLiveStream buffer isStreamComplete =
         \<lparr>completeSlides = concat sss @ slide_values vs,
          inProgressHtml = (if isStreamComplete then [] else in_progress_html tail)\<rparr>"
proof -
  from batches_objects2 [OF assms(1)]
  have o: "\<forall>b\<in>set earlier. object_members b \<noteq> None" and m: "map object_slides earlier = sss"
    by simp_all
  from assms(3) m have f: "fresh_titles (concat (map object_slides earlier)) vs" by simp
  from assms(4) have q: "quiet1 tail" "quiet2 tail" by simp_all
  show ?thesis
    using parse_open_batch [OF o assms(2) f q assms(5,6,7), of isStreamComplete] m by simp
qed

text \<open>
  Claim C7. One slide's content is written with an escaped quote: the bodies \<open>ur\<close> and
  \<open>vr\<close> of string literals around the two characters backslash and quote. Wherever the
  slide stands in a stream, the parser returns it as one slide whose content is one field
  (the first part, a quote character, the second part); the escaped quote neither ends
  the string nor splits the slide. The slide may stand

    \<^item> in a complete batch among complete batches, which the first scan collects;
    \<^item> in a complete batch that is followed by a batch still open;
    \<^item> closed, in the batch that is still open, where the second scan collects it.

  The other slides of its batch and the other batches are arbitrary; the open batch breaks
  off behind a closed slide, behind the comma or inside the content of its next slide.
  (The buffers have no \<^verbatim>\<open>```\<close> marker, which the cleaning step would remove, and do not
  end in white space; a slide of the open batch is collected only under a title not seen
  before.)
\<close>

theorem escaped_quote_single_field:
  assumes "denotes tr t" and "denotes ur u" and "denotes vr v"
  shows
   \<open>(list_all2 object_text xsa vsa \<and> list_all2 object_text xsb vsb
      \<and> list_all2 (\<lambda>b slides. batch_slides b = Some slides) before sssa
      \<and> list_all2 (\<lambda>b slides. batch_slides b = Some slides) after sssb
      \<and> buffer = concat before
            @ batch_json (xsa @ [slide_json tr (ur @ [BACKSLASH, DQUOTE] @ vr)] @ xsb)
            @ concat after
      \<and> \<not> js_includes buffer (js ''```'')
      \<longrightarrow> completeSlides (parseLiveStream buffer isStreamComplete) =
            concat sssa @ vsa @ [slide_value t (u @ [DQUOTE] @ v)] @ vsb @ concat sssb)
    \<and>
    (list_all2 object_text xsa vsa \<and> list_all2 object_text xsb vsb
      \<and> list_all2 (\<lambda>b slides. batch_slides b = Some slides) before sssa
      \<and> list_all2 (\<lambda>b slides. batch_slides b = Some slides) after sssb
      \<and> list_all2 (\<lambda>(tr, cr) (t, c). denotes tr t \<and> denotes cr c \<and> t \<noteq> [] \<and> c \<noteq> []) finished fvs
      \<and> fresh_titles (concat sssa @ vsa @ [slide_value t (u @ [DQUOTE] @ v)] @ vsb @ concat sssb) fvs
      \<and> open_tail tail
      \<and> buffer = concat before
            @ batch_json (xsa @ [slide_json tr (ur @ [BACKSLASH, DQUOTE] @ vr)] @ xsb)
            @ concat after
            @ js ''{"slides":['' @ rendered_slides finished @ tail
      \<and> \<not> js_includes buffer (js ''```'') \<and> \<not> is_js_space (last buffer)
      \<longrightarrow> completeSlides (parseLiveStream buffer isStreamComplete) =
            concat sssa @ vsa @ [slide_value t (u @ [DQUOTE] @ v)] @ vsb @ concat sssb
              @ slide_values fvs)
    \<and>
    (list_all2 (\<lambda>b slides. batch_slides b = Some slides) before sssa
      \<and> list_all2 (\<lambda>(tr, cr) (t, c). denotes tr t \<and> denotes cr c \<and> t \<noteq> [] \<and> c \<noteq> []) fa fvsa
      \<and> list_all2 (\<lambda>(tr, cr) (t, c). denotes tr t \<and> denotes cr c \<and> t \<noteq> [] \<and> c \<noteq> []) fb fvsb
      \<and> t \<noteq> []
      \<and> fresh_titles (concat sssa) (fvsa @ [(t, u @ [DQUOTE] @ v)] @ fvsb)
      \<and> open_tail tail
      \<and> buffer = concat before @ js ''{"slides":['' 
            @ rendered_slides (fa @ [(tr, ur @ [BACKSLASH, DQUOTE] @ vr)] @ fb) @ tail
      \<and> \<not> js_includes buffer (js ''```'') \<and> \<not> is_js_space (last buffer)
      \<longrightarrow> completeSlides (parseLiveStream buffer isStreamComplete) =
            concat sssa @ slide_values fvsa @ [slide_value t (u @ [DQUOTE] @ v)] @ slide_values fvsb)\<close>
proof (intro conjI impI)
  let ?cr = "ur @ [BACKSLASH, DQUOTE] @ vr"
  let ?q = "slide_value t (u @ [DQUOTE] @ v)"
  have c: "denotes ?cr (u @ [DQUOTE] @ v)" using assms(2,3) by (rule denotes_escaped_quote)
  have qt: "list_all2 object_text [slide_json tr ?cr] [?q]"
    using slide_json_object_text [OF assms(1) c] by simp
  have batch: "batch_slides (batch_json (xs @ [slide_json tr ?cr] @ ys)) = Some (vs @ [?q] @ ws)"
    if "list_all2 object_text xs vs" "list_all2 object_text ys ws" for xs ys vs ws
  proof -
    have "list_all2 object_text (xs @ [slide_json tr ?cr] @ ys) (vs @ [?q] @ ws)"
      using that qt by (intro list_all2_appendI)
    then show ?thesis by (rule batch_json_slides)
  qed
  {
    assume h: \<open>list_all2 object_text xsa vsa \<and> list_all2 object_text xsb vsb
      \<and> list_all2 (\<lambda>b slides. batch_slides b = Some slides) before sssa
      \<and> list_all2 (\<lambda>b slides. batch_slides b = Some slides) after sssb
      \<and> buffer = concat before @ batch_json (xsa @ [slide_json tr ?cr] @ xsb) @ concat after
      \<and> \<not> js_includes buffer (js ''```'')\<close>
    let ?b = "batch_json (xsa @ [slide_json tr ?cr] @ xsb)"
    from h have bs: "batch_slides ?b = Some (vsa @ [?q] @ vsb)" by (intro batch) blast+
    from h have b1: "list_all2 (\<lambda>b slides. batch_slides b = Some slides) before sssa"
      and b2: "list_all2 (\<lambda>b slides. batch_slides b = Some slides) after sssb" by blast+
    from batches_objects2 [OF b1] batches_objects2 [OF b2] bs
    have o: "\<forall>b\<in>set (before @ [?b] @ after). object_members b \<noteq> None"
      and m: "map object_slides before = sssa" "map object_slides after = sssb"
      by (auto dest: batch_slides_members)
    from h have "buffer = concat before @ ?b @ concat after" by blast
    then have bq: "buffer = concat (before @ [?b] @ after)" by simp
    from h have "\<not> js_includes buffer (js ''```'')" by blast
    then have f: "\<not> js_includes (concat (before @ [?b] @ after)) (js ''```'')" unfolding bq .
    have "object_slides ?b = vsa @ [?q] @ vsb" using bs by (simp add: object_slides_def)
    with parse_objects [OF o f, of isStreamComplete] m
    show "completeSlides (parseLiveStream buffer isStreamComplete) =
            concat sssa @ vsa @ [?q] @ vsb @ concat sssb"
      unfolding bq by simp
  }
  {
    assume h: \<open>list_all2 object_text xsa vsa \<and> list_all2 object_text xsb vsb
      \<and> list_all2 (\<lambda>b slides. batch_slides b = Some slides) before sssa
      \<and> list_all2 (\<lambda>b slides. batch_slides b = Some slides) after sssb
      \<and> list_all2 (\<lambda>(tr, cr) (t, c). denotes tr t \<and> denotes cr c \<and> t \<noteq> [] \<and> c \<noteq> []) finished fvs
      \<and> fresh_titles (concat sssa @ vsa @ [?q] @ vsb @ concat sssb) fvs
      \<and> open_tail tail
      \<and> buffer = concat before @ batch_json (xsa @ [slide_json tr ?cr] @ xsb) @ concat after
            @ js ''{"slides":['' @ rendered_slides finished @ tail
      \<and> \<not> js_includes buffer (js ''```'') \<and> \<not> is_js_space (last buffer)\<close>
    let ?b = "batch_json (xsa @ [slide_json tr ?cr] @ xsb)"
    from h have bs: "batch_slides ?b = Some (vsa @ [?q] @ vsb)" by (intro batch) blast+
    from h have b1: "list_all2 (\<lambda>b slides. batch_slides b = Some slides) before sssa"
      and b2: "list_all2 (\<lambda>b slides. batch_slides b = Some slides) after sssb" by blast+
    have e: "list_all2 (\<lambda>b slides. batch_slides b = Some slides) (before @ [?b] @ after)
               (sssa @ [vsa @ [?q] @ vsb] @ sssb)"
      using b1 b2 bs by (intro list_all2_appendI) simp_all
    from h have "fresh_titles (concat sssa @ vsa @ [?q] @ vsb @ concat sssb) fvs" by blast
    then have fr: "fresh_titles (concat (sssa @ [vsa @ [?q] @ vsb] @ sssb)) fvs" by simp
    from h have \<open>buffer = concat before @ batch_json (xsa @ [slide_json tr ?cr] @ xsb) @ concat after
            @ js ''{"slides":['' @ rendered_slides finished @ tail\<close> by blast
    then have bq: \<open>buffer = concat (before @ [?b] @ after) @ js ''{"slides":['' @ rendered_slides finished @ tail\<close>
      by simp
    from h have ok: "list_all2 (\<lambda>(tr, cr) (t, c). denotes tr t \<and> denotes cr c \<and> t \<noteq> [] \<and> c \<noteq> []) finished fvs"
      and nf: "\<not> js_includes buffer (js ''```'')" and ns: "\<not> is_js_space (last buffer)"
      and ot: "open_tail tail" by blast+
    from parse_open_stream [OF e ok fr open_tail_quiet [OF ot] bq nf ns, of isStreamComplete]
    show "completeSlides (parseLiveStream buffer isStreamComplete) =
            concat sssa @ vsa @ [?q] @ vsb @ concat sssb @ slide_values fvs"
      by simp
  }
  {
    assume h: \<open>list_all2 (\<lambda>b slides. batch_slides b = Some slides) before sssa
      \<and> list_all2 (\<lambda>(tr, cr) (t, c). denotes tr t \<and> denotes cr c \<and> t \<noteq> [] \<and> c \<noteq> []) fa fvsa
      \<and> list_all2 (\<lambda>(tr, cr) (t, c). denotes tr t \<and> denotes cr c \<and> t \<noteq> [] \<and> c \<noteq> []) fb fvsb
      \<and> t \<noteq> []
      \<and> fresh_titles (concat sssa) (fvsa @ [(t, u @ [DQUOTE] @ v)] @ fvsb)
      \<and> open_tail tail
      \<and> buffer = concat before @ js ''{"slides":[''
            @ rendered_slides (fa @ [(tr, ur @ [BACKSLASH, DQUOTE] @ vr)] @ fb) @ tail
      \<and> \<not> js_includes buffer (js ''```'') \<and> \<not> is_js_space (last buffer)\<close>
    from h have b1: "list_all2 (\<lambda>b slides. batch_slides b = Some slides) before sssa"
      and fa: "list_all2 (\<lambda>(tr, cr) (t, c). denotes tr t \<and> denotes cr c \<and> t \<noteq> [] \<and> c \<noteq> []) fa fvsa"
      and fb: "list_all2 (\<lambda>(tr, cr) (t, c). denotes tr t \<and> denotes cr c \<and> t \<noteq> [] \<and> c \<noteq> []) fb fvsb"
      and t: "t \<noteq> []"
      and fr: "fresh_titles (concat sssa) (fvsa @ [(t, u @ [DQUOTE] @ v)] @ fvsb)"
      and ot: "open_tail tail"
      and bq: \<open>buffer = concat before @ js ''{"slides":[''
            @ rendered_slides (fa @ [(tr, ?cr)] @ fb) @ tail\<close>
      and nf: "\<not> js_includes buffer (js ''```'')" and ns: "\<not> is_js_space (last buffer)"
      by blast+
    have "list_all2 (\<lambda>(tr, cr) (t, c). denotes tr t \<and> denotes cr c \<and> t \<noteq> [] \<and> c \<noteq> [])
            [(tr, ?cr)] [(t, u @ [DQUOTE] @ v)]"
      using assms(1) c t by simp
    with fa fb have ok: "list_all2 (\<lambda>(tr, cr) (t, c). denotes tr t \<and> denotes cr c \<and> t \<noteq> [] \<and> c \<noteq> [])
            (fa @ [(tr, ?cr)] @ fb) (fvsa @ [(t, u @ [DQUOTE] @ v)] @ fvsb)"
      by (intro list_all2_appendI)
    from parse_open_stream [OF b1 ok fr open_tail_quiet [OF ot] bq nf ns, of isStreamComplete]
    show "completeSlides (parseLiveStream buffer isStreamComplete) =
            concat sssa @ slide_values fvsa @ [?q] @ slide_values fvsb"
      by (simp add: slide_values_def)
  }
qed

lemma open_quoted_facts:
  "denotes (js ''Q'') (js ''Q'') \<and> denotes (js ''C'') (js ''C'') \<and> inside_string (js ''<p>par'')
   \<and> fresh_titles [slide_A]
        ([(js ''Intro'', js ''<h1>Hello</h1>'')]
         @ [(js ''Q'', js ''<p class='' @ [DQUOTE] @ (js ''x'' @ [DQUOTE] @ js ''>hi</p>''))] @ [])
   \<and> \<not> js_includes open_quoted_buffer (js ''```'')
   \<and> \<not> is_js_space (last open_quoted_buffer)"
  by code_simp

lemma open_tail_example: "open_tail (COMMA # open_slide (js ''C'') (js ''<p>par''))"
  unfolding open_tail_def using open_quoted_facts by blast

text \<open>
  A slide whose content has two escaped quotes: in a complete batch between two batches,
  and closed in a batch that is still open, behind a complete batch and another slide.
\<close>

theorem escaped_quote_single_field_witness:
  "completeSlides (parseLiveStream quoted_buffer False) =
     [slide_A, slide_value (js ''Intro'') (js ''<h1>Hello</h1>''),
      slide_value (js ''A'') (js ''<p class='' @ [DQUOTE] @ js ''x'' @ [DQUOTE] @ js ''>hi</p>''),
      slide_B]
   \<and> completeSlides (parseLiveStream open_quoted_buffer False) =
     [slide_A, slide_value (js ''Intro'') (js ''<h1>Hello</h1>''),
      slide_value (js ''Q'') (js ''<p class='' @ [DQUOTE] @ js ''x'' @ [DQUOTE] @ js ''>hi</p>'')]"
proof
  let ?ur = "js ''<p class=''" and ?vr = "js ''x'' @ [BACKSLASH, DQUOTE] @ js ''>hi</p>''"
  let ?v = "js ''x'' @ [DQUOTE] @ js ''>hi</p>''"
  have d: "denotes (js ''A'') (js ''A'')" "denotes ?ur ?ur" "denotes ?vr ?v"
    "denotes (js ''Intro'') (js ''Intro'')" "denotes (js ''<h1>Hello</h1>'') (js ''<h1>Hello</h1>'')"
    using quoted_buffer_facts by simp_all
  have dq: "denotes (js ''Q'') (js ''Q'')" using open_quoted_facts by simp
  have h1: \<open>list_all2 object_text [plain_slide] [slide_value (js ''Intro'') (js ''<h1>Hello</h1>'')]
      \<and> list_all2 object_text [] []
      \<and> list_all2 (\<lambda>b slides. batch_slides b = Some slides) [batch_A] [[slide_A]]
      \<and> list_all2 (\<lambda>b slides. batch_slides b = Some slides) [batch_B] [[slide_B]]
      \<and> quoted_buffer = concat [batch_A]
            @ batch_json ([plain_slide] @ [slide_json (js ''A'') (?ur @ [BACKSLASH, DQUOTE] @ ?vr)] @ [])
            @ concat [batch_B]
      \<and> \<not> js_includes quoted_buffer (js ''```'')\<close>
    using quoted_buffer_facts d
    by (simp add: plain_slide_def slide_json_object_text batch_A_slides batch_B_slides
        quoted_buffer_def quoted_slide_def)
  from escaped_quote_single_field [OF d(1,2,3), THEN conjunct1, THEN mp, OF h1]
  show "completeSlides (parseLiveStream quoted_buffer False) =
     [slide_A, slide_value (js ''Intro'') (js ''<h1>Hello</h1>''),
      slide_value (js ''A'') (js ''<p class='' @ [DQUOTE] @ js ''x'' @ [DQUOTE] @ js ''>hi</p>''),
      slide_B]"
    by simp
  have h3: \<open>list_all2 (\<lambda>b slides. batch_slides b = Some slides) [batch_A] [[slide_A]]
      \<and> list_all2 (\<lambda>(tr, cr) (t, c). denotes tr t \<and> denotes cr c \<and> t \<noteq> [] \<and> c \<noteq> [])
            [(js ''Intro'', js ''<h1>Hello</h1>'')] [(js ''Intro'', js ''<h1>Hello</h1>'')]
      \<and> list_all2 (\<lambda>(tr, cr) (t, c). denotes tr t \<and> denotes cr c \<and> t \<noteq> [] \<and> c \<noteq> []) [] []
      \<and> js ''Q'' \<noteq> []
      \<and> fresh_titles (concat [[slide_A]])
            ([(js ''Intro'', js ''<h1>Hello</h1>'')] @ [(js ''Q'', ?ur @ [DQUOTE] @ ?v)] @ [])
      \<and> open_tail (COMMA # open_slide (js ''C'') (js ''<p>par''))
      \<and> open_quoted_buffer = concat [batch_A] @ js ''{"slides":[''
            @ rendered_slides ([(js ''Intro'', js ''<h1>Hello</h1>'')]
                 @ [(js ''Q'', ?ur @ [BACKSLASH, DQUOTE] @ ?vr)] @ [])
            @ COMMA # open_slide (js ''C'') (js ''<p>par'')
      \<and> \<not> js_includes open_quoted_buffer (js ''```'') \<and> \<not> is_js_space (last open_quoted_buffer)\<close>
    using open_quoted_facts d open_tail_example
    by (simp add: batch_A_slides open_quoted_buffer_def js_def)
  from escaped_quote_single_field [OF dq d(2,3), THEN conjunct2, THEN conjunct2, THEN mp, OF h3]
  show "completeSlides (parseLiveStream open_quoted_buffer False) =
     [slide_A, slide_value (js ''Intro'') (js ''<h1>Hello</h1>''),
      slide_value (js ''Q'') (js ''<p class='' @ [DQUOTE] @ js ''x'' @ [DQUOTE] @ js ''>hi</p>'')]"
    by (simp add: slide_values_def)
qed

section \<open>The preview of the slide in progress\<close>





lemma not_includes_drop: "\<not> js_includes s p \<Longrightarrow> \<not> startsWith (drop k s) p"
proof (induction s arbitrary: k)
  case Nil
  then show ?case by (cases p) auto
next
  case (Cons c s)
  then show ?case by (cases k) auto
qed

lemma includes_iff_drop: "js_includes s p \<longleftrightarrow> (\<exists>k. startsWith (drop k s) p)"
proof
  show "js_includes s p \<Longrightarrow> \<exists>k. startsWith (drop k s) p"
  proof (induction s)
    case Nil
    then show ?case by simp
  next
    case (Cons c s)
    show ?case
    proof (cases "startsWith (c # s) p")
      case True
      then have "startsWith (drop 0 (c # s)) p" by simp
      then show ?thesis by blast
    next
      case False
      with Cons obtain k where "startsWith (drop k s) p" by auto
      then have "startsWith (drop (Suc k) (c # s)) p" by simp
      then show ?thesis by blast
    qed
  qed
  show "\<exists>k. startsWith (drop k s) p \<Longrightarrow> js_includes s p"
    using not_includes_drop by blast
qed

lemma not_includes_suffix: "\<not> js_includes (x @ y) p \<Longrightarrow> \<not> js_includes y p"
proof
  assume a: "\<not> js_includes (x @ y) p" and "js_includes y p"
  then obtain k where "startsWith (drop k y) p" by (auto simp: includes_iff_drop)
  then have "startsWith (drop (length x + k) (x @ y)) p" by simp
  with a show False using not_includes_drop by blast
qed

lemma replace_all_skip:
  "\<forall>k<length x. \<not> startsWith (drop k x @ z) pat \<Longrightarrow>
     replace_all pat rep (x @ z) = x @ replace_all pat rep z"
proof (induction x)
  case Nil
  then show ?case by simp
next
  case (Cons c x)
  from Cons.prems have 0: "\<not> startsWith ((c # x) @ z) pat" by force
  have "\<forall>k<length x. \<not> startsWith (drop k x @ z) pat"
  proof (intro allI impI)
    fix k assume "k < length x"
    then have "Suc k < length (c # x)" by simp
    with Cons.prems have "\<not> startsWith (drop (Suc k) (c # x) @ z) pat" by blast
    then show "\<not> startsWith (drop k x @ z) pat" by simp
  qed
  with Cons.IH 0 show ?case by simp
qed

lemma startsWith_self: "startsWith (p @ z) p"
  by (induction p) auto

lemma replace_all_match:
  "pat \<noteq> [] \<Longrightarrow> replace_all pat rep (pat @ z) = rep @ replace_all pat rep z"
proof (cases pat)
  case Nil
  assume "pat \<noteq> []"
  with Nil show ?thesis by simp
next
  case (Cons c ps)
  have "startsWith ((c # ps) @ z) (c # ps)" by (rule startsWith_self)
  then show ?thesis using Cons by simp
qed

lemma fence_prefix: "startsWith s (js ''```json'') \<Longrightarrow> startsWith s (js ''```'')"
  using startsWith_append [of s "js ''```''" "js ''json''"] by (simp add: fences_json)

lemma fence_json_absent: "\<not> js_includes s (js ''```'') \<Longrightarrow> \<not> js_includes s (js ''```json'')"
  using js_includes_append [of s "js ''```''" "js ''json''"] by (auto simp: fences_json)

text \<open>No occurrence of the longer marker starts in \<open>x\<close> when three backticks follow \<open>x\<close>.\<close>

lemma no_fence_json_before_backticks:
  assumes nf: "\<not> js_includes (x @ y) (js ''```'')" and k: "k < length x"
  shows "\<not> startsWith (drop k x @ js ''```'' @ z) (js ''```json'')"
proof
  assume sw: "startsWith (drop k x @ js ''```'' @ z) (js ''```json'')"
  have nk: "\<not> startsWith (drop k x @ y) (js ''```'')"
    using not_includes_drop [OF nf, of k] k by simp
  from k obtain a r where d: "drop k x = a # r" by (cases "drop k x") auto
  show False
  proof (cases r)
    case Nil
    with sw d show False by (simp add: js_def)
  next
    case r1: (Cons a1 r1)
    show False
    proof (cases r1)
      case Nil
      with sw d r1 show False by (simp add: js_def)
    next
      case (Cons a2 r2)
      with sw d r1 have "a = BACKTICK \<and> a1 = BACKTICK \<and> a2 = BACKTICK" by (simp add: js_def)
      with nk d r1 Cons show False by (simp add: js_def)
    qed
  qed
qed

lemma strip_inserted_fence_json:
  assumes nf: "\<not> js_includes (x @ y) (js ''```'')"
  shows "replace_all (js ''```json'') [] (x @ js ''```json'' @ y) = x @ y"
proof -
  have "\<forall>k<length x. \<not> startsWith (drop k x @ js ''```json'' @ y) (js ''```json'')"
    using no_fence_json_before_backticks [OF nf, of _ "js ''json'' @ y"]
    by (simp add: fences_json)
  then have "replace_all (js ''```json'') [] (x @ js ''```json'' @ y) =
             x @ replace_all (js ''```json'') [] (js ''```json'' @ y)"
    by (rule replace_all_skip)
  also have "replace_all (js ''```json'') [] (js ''```json'' @ y) = replace_all (js ''```json'') [] y"
    by (subst replace_all_match) (simp_all add: js_def)
  also have "\<dots> = y"
    by (rule replace_all_absent, rule fence_json_absent, rule not_includes_suffix [of x], rule nf)
  finally show ?thesis .
qed

lemma clean_stream_plain:
  "\<not> js_includes s (js ''```'') \<Longrightarrow> clean_stream s = trim s"
  by (simp add: clean_stream_def replace_all_absent fence_json_absent)

lemma clean_inserted_fence_json:
  assumes "\<not> js_includes (x @ y) (js ''```'')"
  shows "clean_stream (x @ js ''```json'' @ y) = clean_stream (x @ y)"
  using assms
  by (simp add: clean_stream_plain)
     (simp add: clean_stream_def strip_inserted_fence_json replace_all_absent)

lemma fence_replicate: "js ''```'' = replicate 3 BACKTICK"
  by (simp add: js_def eval_nat_numeral)

lemma no_fence_json_after_insert:
  assumes nf: "\<not> js_includes (x @ y) (js ''```'')" and nj: "\<not> json_follows y"
  shows "\<not> js_includes (x @ js ''```'' @ y) (js ''```json'')"
proof
  assume "js_includes (x @ js ''```'' @ y) (js ''```json'')"
  then obtain k where k: "startsWith (drop k (x @ js ''```'' @ y)) (js ''```json'')"
    by (auto simp: includes_iff_drop)
  show False
  proof (cases "k < length x")
    case True
    with k have "startsWith (drop k x @ js ''```'' @ y) (js ''```json'')" by simp
    with no_fence_json_before_backticks [OF nf True] show False by blast
  next
    case False
    define off where "off = k - length x"
    from False k have d: "startsWith (drop off (js ''```'' @ y)) (js ''```json'')"
      by (simp add: off_def)
    consider "off = 0" | "off = 1" | "off = 2" | "3 \<le> off" by arith
    then show False
    proof cases
      case 1
      with d have "startsWith y (js ''json'')" by (simp add: js_def)
      with nj show False by (simp add: json_follows_def)
    next
      case 2
      with d have "startsWith y (js ''`json'')" by (simp add: js_def)
      with nj show False by (simp add: json_follows_def)
    next
      case 3
      with d have "startsWith y (js ''``json'')" by (simp add: js_def eval_nat_numeral)
      with nj show False by (simp add: json_follows_def)
    next
      case 4
      then have "drop off (js ''```'' @ y) = drop (off - 3) y" by (simp add: fence_replicate)
      with d have "startsWith (drop (off - 3) y) (js ''```json'')" by simp
      then have "startsWith (drop (off - 3) y) (js ''```'')" by (rule fence_prefix)
      moreover have "\<not> js_includes y (js ''```'')" using nf by (rule not_includes_suffix)
      ultimately show False using not_includes_drop by blast
    qed
  qed
qed

lemma strip_inserted_fence:
  assumes nf: "\<not> js_includes (x @ y) (js ''```'')"
  shows "replace_all (js ''```'') [] (x @ js ''```'' @ y) = x @ y"
proof -
  define bt where "bt = rev (takeWhile (\<lambda>c. c = BACKTICK) (rev x))"
  define x' where "x' = rev (dropWhile (\<lambda>c. c = BACKTICK) (rev x))"
  have x: "x = x' @ bt"
    unfolding x'_def bt_def by (metis rev_append rev_rev_ident takeWhile_dropWhile_id)
  have "\<forall>c\<in>set bt. c = BACKTICK" unfolding bt_def by (auto dest: set_takeWhileD)
  then have bt: "bt = replicate (length bt) BACKTICK" by (simp add: replicate_length_same)
  have lx: "x' \<noteq> [] \<Longrightarrow> last x' \<noteq> BACKTICK"
    unfolding x'_def using hd_dropWhile [of "\<lambda>c. c = BACKTICK" "rev x"]
    by (simp add: last_rev)
  have skip: "\<forall>k<length x'. \<not> startsWith (drop k x' @ (bt @ js ''```'' @ y)) (js ''```'')"
  proof (intro allI impI notI)
    fix k
    assume k: "k < length x'"
      and sw: "startsWith (drop k x' @ (bt @ js ''```'' @ y)) (js ''```'')"
    from k have ne: "x' \<noteq> []" by auto
    from k have l: "last (drop k x') = last x'" by simp
    from k obtain a r where d: "drop k x' = a # r" by (cases "drop k x'") auto
    show False
    proof (cases r)
      case Nil
      with sw d have "a = BACKTICK" by (simp add: js_def)
      with l d Nil lx [OF ne] show False by simp
    next
      case r1: (Cons a1 r1)
      show False
      proof (cases r1)
        case Nil
        with sw d r1 have "a1 = BACKTICK" by (simp add: js_def)
        with l d r1 Nil lx [OF ne] show False by simp
      next
        case (Cons a2 r2)
        with sw d r1 have "startsWith (drop k x' @ bt @ y) (js ''```'')" by (simp add: js_def)
        moreover have "drop k (x @ y) = drop k x' @ bt @ y" using k x by simp
        ultimately show False using not_includes_drop [OF nf, of k] by simp
      qed
    qed
  qed
  have comm: "bt @ js ''```'' = js ''```'' @ bt"
    by (subst (1 2) bt) (simp add: fence_replicate replicate_add [symmetric] add.commute)
  have rest: "\<not> js_includes (bt @ y) (js ''```'')"
    using nf not_includes_suffix [of x' "bt @ y"] x by simp
  have "replace_all (js ''```'') [] (x @ js ''```'' @ y) =
        replace_all (js ''```'') [] (x' @ (bt @ js ''```'' @ y))"
    using x by simp
  also have "\<dots> = x' @ replace_all (js ''```'') [] (bt @ js ''```'' @ y)"
    using skip by (rule replace_all_skip)
  also have "bt @ js ''```'' @ y = js ''```'' @ (bt @ y)"
    using comm by (metis append.assoc)
  also have "replace_all (js ''```'') [] (js ''```'' @ (bt @ y)) = replace_all (js ''```'') [] (bt @ y)"
    by (subst replace_all_match) (simp_all add: js_def)
  also have "\<dots> = bt @ y" using rest by (rule replace_all_absent)
  finally show ?thesis using x by simp
qed

lemma clean_inserted_fence:
  assumes "\<not> js_includes (x @ y) (js ''```'')" and "\<not> json_follows y"
  shows "clean_stream (x @ js ''```'' @ y) = clean_stream (x @ y)"
proof -
  have "replace_all (js ''```json'') [] (x @ js ''```'' @ y) = x @ js ''```'' @ y"
    using assms by (intro replace_all_absent no_fence_json_after_insert)
  then show ?thesis
    using assms(1)
    by (simp add: clean_stream_plain) (simp add: clean_stream_def strip_inserted_fence)
qed

lemma parseLiveStream_clean:
  "clean_stream s = clean_stream s' \<Longrightarrow> parseLiveStream s c = parseLiveStream s' c"
  by (simp add: parseLiveStream_def)

text \<open>
  Claim C4 (as amended). Take any buffer that contains no fence marker, and any position
  in it. Inserting the marker \<^verbatim>\<open>```json\<close> there does not change the result of
  \<^verbatim>\<open>parseLiveStream\<close>; inserting the bare marker \<^verbatim>\<open>```\<close> does not change it either,
  unless the text behind the position begins with \<^verbatim>\<open>json\<close> (possibly after one or two
  backticks), in which case the cleaning step takes the marker and that word together.
\<close>

theorem inserted_fence_is_ignored:
  assumes "\<not> js_includes (x @ y) (js ''```'')"
  shows "parseLiveStream (x @ js ''```json'' @ y) isStreamComplete
           = parseLiveStream (x @ y) isStreamComplete
       \<and> (\<not> json_follows y \<longrightarrow>
            parseLiveStream (x @ js ''```'' @ y) isStreamComplete
              = parseLiveStream (x @ y) isStreamComplete)"
  using assms
  by (auto intro!: parseLiveStream_clean clean_inserted_fence_json clean_inserted_fence)

lemma content_cut_facts:
  "\<not> js_includes (content_cut_left @ content_cut_right) (js ''```'')
   \<and> \<not> json_follows content_cut_right
   \<and> parseLiveStream (content_cut_left @ content_cut_right) True =
       \<lparr>completeSlides = [slide_A], inProgressHtml = []\<rparr>"
  by code_simp

text \<open>Both markers inserted in the middle of a content string.\<close>

theorem inserted_fence_is_ignored_witness:
  "parseLiveStream (content_cut_left @ js ''```json'' @ content_cut_right) True =
     \<lparr>completeSlides = [slide_A], inProgressHtml = []\<rparr>
   \<and> parseLiveStream (content_cut_left @ js ''```'' @ content_cut_right) True =
     \<lparr>completeSlides = [slide_A], inProgressHtml = []\<rparr>"
  using inserted_fence_is_ignored [of content_cut_left content_cut_right True] content_cut_facts
  by simp

text \<open>
  Claim C4 as stated fails: the bare marker inserted in front of the title \<^verbatim>\<open>json\<close> of a
  valid buffer forms \<^verbatim>\<open>```json\<close>, which the cleaning step removes as a whole; the slide
  comes back with the empty title.
\<close>

theorem fence_before_json_changes_title:
  "\<not> js_includes (title_cut_left @ title_cut_right) (js ''```'')
   \<and> completeSlides (parseLiveStream (title_cut_left @ title_cut_right) True) =
       [slide_value (js ''json'') (js ''x'')]
   \<and> completeSlides (parseLiveStream (title_cut_left @ js ''```'' @ title_cut_right) True) =
       [slide_value [] (js ''x'')]"
  by code_simp

text \<open>The two prefixes of the URL expression as code units, for evaluation.\<close>

lemma https_prefix_code [code_unfold]:
  "js ''https://gen.pollinations.ai/image/'' =
     [104, 116, 116, 112, 115, 58, 47, 47, 103, 101, 110, 46, 112, 111, 108, 108, 105, 110, 97,
      116, 105, 111, 110, 115, 46, 97, 105, 47, 105, 109, 97, 103, 101, 47]"
  by (simp add: js_def)

lemma http_prefix_code [code_unfold]:
  "js ''http://gen.pollinations.ai/image/'' =
     [104, 116, 116, 112, 58, 47, 47, 103, 101, 110, 46, 112, 111, 108, 108, 105, 110, 97,
      116, 105, 111, 110, 115, 46, 97, 105, 47, 105, 109, 97, 103, 101, 47]"
  by (simp add: js_def)

lemma quickchart_name_code [code_unfold]:
  "js ''<quickchart'' = [60, 113, 117, 105, 99, 107, 99, 104, 97, 114, 116]"
  by (simp add: js_def)

lemma replace_urls_without_url: "\<not> has_image_url s \<Longrightarrow> replace_urls apiKey s = Inr s"
proof (induction s)
  case Nil
  then show ?case by simp
next
  case (Cons c s)
  then have "replace_urls apiKey s = Inr s" by simp
  moreover from Cons.prems have "match_url (c # s) = None"
    by (cases "match_url (c # s)") auto
  ultimately show ?case by simp
qed

text \<open>
  On an input in which no position starts a generative-image URL the rewrite returns the
  input as it is.
\<close>

lemma pollinations_rewrite_without_url:
  assumes "\<not> has_image_url input"
  shows "transformPollinationsURLs input apiKey = Inr input"
  using assms by (simp add: transformPollinationsURLs_def replace_urls_without_url)

text \<open>
  Claim C3. The rewrite is meant to be safe to run twice: applied to its own output it
  should change nothing. The code does not achieve that. The query string that the
  rewrite appends consists of characters that the URL expression captures, so a second
  application to the rewritten URL takes \<^verbatim>\<open>cat?model=flux&key=K\<close> for the description,
  encodes it and appends the query again: the results of one and of two applications
  differ.
\<close>

theorem pollinations_rewrite_not_idempotent:
  "transformPollinationsURLs (js ''https://gen.pollinations.ai/image/cat'') (js ''K'')
     = Inr (js ''https://gen.pollinations.ai/image/cat?model=flux&key=K'')
   \<and> transformPollinationsURLs (js ''https://gen.pollinations.ai/image/cat?model=flux&key=K'') (js ''K'')
     = Inr (js ''https://gen.pollinations.ai/image/cat%3Fmodel%3Dflux%26key%3DK?model=flux&key=K'')"
  by code_simp

lemma startsWith_includes: "startsWith s p \<Longrightarrow> js_includes s p"
  by (cases s; cases p) auto

lemma replace_charts_without_tag:
  \<open>\<not> js_includes s (js ''<quickchart'') \<Longrightarrow> replace_charts s = Inr s\<close>
proof (induction s)
  case Nil
  then show ?case by simp
next
  case (Cons c s)
  then have "match_quickchart (c # s) = None" by (auto simp: match_quickchart_def)
  with Cons show ?case by auto
qed

text \<open>
  Claim C6 (as amended). The tag \<^verbatim>\<open><quickchart config='{"type":"bar"}'>\<close> becomes an
  \<^verbatim>\<open>img\<close> tag whose \<^verbatim>\<open>src\<close> carries the query parameter \<^verbatim>\<open>c\<close>; percent-decoded, the
  parameter is \<^verbatim>\<open>{"type":"bar"}\<close> again. For every input whose converted text contains
  no \<^verbatim>\<open><quickchart\<close> any more, converting twice gives the same as converting once.
\<close>

theorem quickchart_conversion:
  \<open>convertQuickChartTags chart_tag = Inr chart_img
   \<and> chart_img = js ''<img src="https://quickchart.io/chart?c='' @ js ''%7B%22type%22%3A%22bar%22%7D'' @ js ''">''
   \<and> decodeURIComponent (js ''%7B%22type%22%3A%22bar%22%7D'') = Inr (js ''{"type":"bar"}'')
   \<and> (\<forall>input once. convertQuickChartTags input = Inr once \<and> \<not> js_includes once (js ''<quickchart'')
         \<longrightarrow> convertQuickChartTags once = Inr once)\<close>
proof (intro conjI allI impI)
  show "convertQuickChartTags chart_tag = Inr chart_img" by code_simp
  show \<open>chart_img = js ''<img src="https://quickchart.io/chart?c='' @ js ''%7B%22type%22%3A%22bar%22%7D'' @ js ''">''\<close>
    by code_simp
  show \<open>decodeURIComponent (js ''%7B%22type%22%3A%22bar%22%7D'') = Inr (js ''{"type":"bar"}'')\<close>
    by code_simp
next
  fix input once
  assume \<open>convertQuickChartTags input = Inr once \<and> \<not> js_includes once (js ''<quickchart'')\<close>
  then show "convertQuickChartTags once = Inr once"
    by (simp add: convertQuickChartTags_def replace_charts_without_tag)
qed

lemma chart_img_no_tag: \<open>\<not> js_includes chart_img (js ''<quickchart'')\<close>
  by code_simp

text \<open>The example tag, converted twice.\<close>

theorem quickchart_conversion_witness:
  "convertQuickChartTags chart_tag = Inr chart_img \<and> convertQuickChartTags chart_img = Inr chart_img"
  using quickchart_conversion chart_img_no_tag by blast

text \<open>
  Claim C6 as stated fails for its second half: an attribute value may itself hold a chart
  tag in other quotes. The first conversion copies the value into the \<^verbatim>\<open>img\<close> tag, the
  second one converts the tag inside it.
\<close>

theorem quickchart_conversion_not_idempotent:
  \<open>convertQuickChartTags nested_chart_tag =
     Inr (js ''<img src="https://quickchart.io/chart?c=a" b="<quickchart config='z'">'')
   \<and> convertQuickChartTags (js ''<img src="https://quickchart.io/chart?c=a" b="<quickchart config='z'">'') =
     Inr (js ''<img src="https://quickchart.io/chart?c=a" b="<img src="https://quickchart.io/chart?c=z">'')\<close>
  by code_simp

section \<open>The retry policy\<close>

lemma withRetry_loop_skip:
  assumes "transient_upto fn k" and "k \<le> m"
  shows "withRetry_loop fn m 0 None [] =
         withRetry_loop fn m k (if k = 0 then None else Some (projl (fn (k - 1)))) (backoff k)"
  using assms
proof (induction k)
  case 0
  then show ?case by (simp add: backoff_def)
next
  case (Suc k)
  from Suc.prems have tk: "transient_upto fn k" and km: "k < m"
    by (auto simp: transient_upto_def)
  from Suc.prems obtain e where e: "fn k = Inl e" "\<not> is_rate_limit e"
    by (auto simp: transient_upto_def)
  have "withRetry_loop fn m 0 None [] =
        withRetry_loop fn m k (if k = 0 then None else Some (projl (fn (k - 1)))) (backoff k)"
    using Suc.IH tk km by simp
  also have "\<dots> = withRetry_loop fn m (k + 1) (Some e) (backoff k @ [1000 * (k + 1)])"
    using km e by (subst withRetry_loop.simps) simp
  finally show ?case using e by (simp add: backoff_def)
qed

lemma withRetry_settles:
  assumes "transient_upto fn k" and "k < m"
  shows "fn k = Inr v \<Longrightarrow>
           withRetry fn m = \<lparr>outcome = Inr v, attempts = k + 1, delays = backoff k\<rparr>"
    and "fn k = Inl e \<Longrightarrow> is_rate_limit e \<Longrightarrow>
           withRetry fn m = \<lparr>outcome = Inl e, attempts = k + 1, delays = backoff k\<rparr>"
  using withRetry_loop_skip [OF assms(1), of m] assms(2)
  by (simp_all add: withRetry_def withRetry_loop.simps [of fn m k])

lemma withRetry_exhausts:
  assumes "transient_upto fn m"
  shows "withRetry fn m =
     \<lparr>outcome = Inl (exhausted_error m (if m = 0 then None else Some (projl (fn (m - 1))))),
      attempts = m, delays = backoff m\<rparr>"
  using withRetry_loop_skip [OF assms, of m]
  by (simp add: withRetry_def withRetry_loop.simps [of fn m m])

lemma withRetry_loop_attempts:
  "i \<le> m \<Longrightarrow> attempts (withRetry_loop fn m i le sl) \<le> m"
proof (induction fn m i le sl rule: withRetry_loop.induct)
  case (1 fn maxRetries i lastError slept)
  show ?case
  proof (cases "i < maxRetries")
    case True
    then show ?thesis using 1
      by (subst withRetry_loop.simps) (auto split: sum.splits)
  next
    case False
    then show ?thesis using 1 by (subst withRetry_loop.simps) simp
  qed
qed

text \<open>
  Claim C10. With the default cap of three attempts, \<^verbatim>\<open>_withRetry\<close> invokes the wrapped
  call at most three times. As long as the call fails with errors that carry no 429
  signal it is retried, after waiting 1000, 2000, ... milliseconds (linear backoff); the
  first success is returned. An error that carries the 429 signal is thrown on at once:
  the same error, no further invocation, no further delay. When all three attempts fail
  the helper throws a terminal error of its own.
\<close>

theorem withRetry_policy:
  fixes fn :: "nat \<Rightarrow> js_error + 'a"
  defines "r \<equiv> withRetry fn DEFAULT_MAX_RETRIES"
  shows "attempts r \<le> 3 \<and>
    (\<forall>k<3. (\<forall>j<k. \<exists>e. fn j = Inl e \<and> \<not> is_rate_limit e) \<longrightarrow>
       (\<forall>v. fn k = Inr v \<longrightarrow>
          r = \<lparr>outcome = Inr v, attempts = k + 1, delays = map (\<lambda>j. 1000 * (j + 1)) [0..<k]\<rparr>) \<and>
       (\<forall>e. fn k = Inl e \<and> is_rate_limit e \<longrightarrow>
          r = \<lparr>outcome = Inl e, attempts = k + 1, delays = map (\<lambda>j. 1000 * (j + 1)) [0..<k]\<rparr>)) \<and>
    ((\<forall>j<3. \<exists>e. fn j = Inl e \<and> \<not> is_rate_limit e) \<longrightarrow>
       r = \<lparr>outcome = Inl (exhausted_error 3 (Some (projl (fn 2)))), attempts = 3,
            delays = [1000, 2000, 3000]\<rparr>)"
proof (intro conjI allI impI)
  show "attempts r \<le> 3"
    using withRetry_loop_attempts [of 0 3 fn None "[]"]
    by (simp add: r_def withRetry_def DEFAULT_MAX_RETRIES_def)
next
  fix k v
  assume "k < 3" "\<forall>j<k. \<exists>e. fn j = Inl e \<and> \<not> is_rate_limit e" "fn k = Inr v"
  then show "r = \<lparr>outcome = Inr v, attempts = k + 1, delays = map (\<lambda>j. 1000 * (j + 1)) [0..<k]\<rparr>"
    using withRetry_settles(1) [of fn k 3 v]
    by (simp add: r_def DEFAULT_MAX_RETRIES_def transient_upto_def backoff_def)
next
  fix k e
  assume "k < 3" "\<forall>j<k. \<exists>e. fn j = Inl e \<and> \<not> is_rate_limit e" "fn k = Inl e \<and> is_rate_limit e"
  then show "r = \<lparr>outcome = Inl e, attempts = k + 1, delays = map (\<lambda>j. 1000 * (j + 1)) [0..<k]\<rparr>"
    using withRetry_settles(2) [of fn k 3 e]
    by (simp add: r_def DEFAULT_MAX_RETRIES_def transient_upto_def backoff_def)
next
  assume "\<forall>j<3. \<exists>e. fn j = Inl e \<and> \<not> is_rate_limit e"
  then show "r = \<lparr>outcome = Inl (exhausted_error 3 (Some (projl (fn 2)))), attempts = 3,
            delays = [1000, 2000, 3000]\<rparr>"
    using withRetry_exhausts [of fn 3]
    by (simp add: r_def DEFAULT_MAX_RETRIES_def transient_upto_def backoff_def upt_rec)
qed

lemma boom_transient: "\<not> is_rate_limit boom"
  by (simp add: is_rate_limit_def boom_def js_def)

lemma too_many_rate: "is_rate_limit too_many"
  by (simp add: is_rate_limit_def too_many_def js_def)

text \<open>The policy at three concrete outcome sequences: success at the third attempt,
  a 429 at the second, and three transient failures.\<close>

theorem withRetry_policy_witness:
  "withRetry (\<lambda>k. if k < 2 then Inl boom else Inr (7::nat)) DEFAULT_MAX_RETRIES
     = \<lparr>outcome = Inr 7, attempts = 3, delays = [1000, 2000]\<rparr>
   \<and> withRetry (\<lambda>k. if k < 1 then Inl boom else (Inl too_many :: js_error + nat)) DEFAULT_MAX_RETRIES
     = \<lparr>outcome = Inl too_many, attempts = 2, delays = [1000]\<rparr>
   \<and> withRetry (\<lambda>k. (Inl boom :: js_error + nat)) DEFAULT_MAX_RETRIES
     = \<lparr>outcome = Inl \<lparr>err_message = Some (js ''AI service failed after 3 attempts. Last error: boom''), err_code_is_429 = False\<rparr>,
         attempts = 3, delays = [1000, 2000, 3000]\<rparr>"
proof (intro conjI)
  let ?f = "\<lambda>k::nat. if k < 2 then Inl boom else Inr (7::nat)"
  have "\<forall>j<2. \<exists>e. ?f j = Inl e \<and> \<not> is_rate_limit e" using boom_transient by simp
  moreover have "?f 2 = Inr 7" by simp
  ultimately show "withRetry ?f DEFAULT_MAX_RETRIES = \<lparr>outcome = Inr 7, attempts = 3, delays = [1000, 2000]\<rparr>"
    using withRetry_policy [of ?f, THEN conjunct2, THEN conjunct1, rule_format, of 2, THEN conjunct1, rule_format, of 7] boom_transient
    by (simp add: upt_rec)
next
  let ?f = "\<lambda>k::nat. if k < 1 then Inl boom else (Inl too_many :: js_error + nat)"
  have "\<forall>j<1. \<exists>e. ?f j = Inl e \<and> \<not> is_rate_limit e" using boom_transient by simp
  moreover have "?f 1 = Inl too_many \<and> is_rate_limit too_many" using too_many_rate by simp
  ultimately show "withRetry ?f DEFAULT_MAX_RETRIES = \<lparr>outcome = Inl too_many, attempts = 2, delays = [1000]\<rparr>"
    using withRetry_policy [of ?f, THEN conjunct2, THEN conjunct1, rule_format, of 1, THEN conjunct2, rule_format, of too_many] boom_transient too_many_rate
    by (simp add: upt_rec)
next
  let ?f = "\<lambda>k::nat. (Inl boom :: js_error + nat)"
  have "\<forall>j<3. \<exists>e. ?f j = Inl e \<and> \<not> is_rate_limit e" using boom_transient by simp
  then have "withRetry ?f DEFAULT_MAX_RETRIES = \<lparr>outcome = Inl (exhausted_error 3 (Some boom)), attempts = 3,
            delays = [1000, 2000, 3000]\<rparr>"
    using withRetry_policy [of ?f, THEN conjunct2, THEN conjunct2] boom_transient by simp
  then show "withRetry ?f DEFAULT_MAX_RETRIES = \<lparr>outcome = Inl \<lparr>err_message = Some (js ''AI service failed after 3 attempts. Last error: boom''), err_code_is_429 = False\<rparr>,
         attempts = 3, delays = [1000, 2000, 3000]\<rparr>"
    by (simp add: exhausted_error_def num_to_string.simps boom_def js_def)
qed

section \<open>The orchestrator's completion flag\<close>

lemma batch_chunks_map:
  "batch_chunks b cs = map (\<lambda>t. \<lparr>chunk_text = t, isComplete = b\<rparr>) (batch_texts cs)"
  by (induction b cs rule: batch_chunks.induct) (simp_all add: batch_texts_def)

lemma no_start_between:
  assumes "BATCH_SIZE dvd i" and "i < j" and "j < i + BATCH_SIZE"
  shows "\<not> BATCH_SIZE dvd j"
proof
  assume "BATCH_SIZE dvd j"
  then obtain b where "j = 4 * b" unfolding BATCH_SIZE_def by (elim dvdE)
  moreover from assms(1) obtain a where "i = 4 * a" unfolding BATCH_SIZE_def by (elim dvdE)
  ultimately show False using assms(2,3) by (simp add: BATCH_SIZE_def)
qed

lemma starts_step:
  assumes "BATCH_SIZE dvd i" and "i < n"
  shows "filter (\<lambda>i. BATCH_SIZE dvd i) [i..<n] = i # filter (\<lambda>i. BATCH_SIZE dvd i) [i + BATCH_SIZE..<n]"
proof -
  have "filter (\<lambda>i. BATCH_SIZE dvd i) [i + 1..<n] = filter (\<lambda>i. BATCH_SIZE dvd i) [i + BATCH_SIZE..<n]"
  proof (cases "n \<le> i + BATCH_SIZE")
    case True
    then have "\<forall>j\<in>set [i + 1..<n]. \<not> BATCH_SIZE dvd j"
      using no_start_between [OF assms(1)] by auto
    then have "filter (\<lambda>i. BATCH_SIZE dvd i) [i + 1..<n] = []" by (simp add: filter_empty_conv)
    with True show ?thesis by simp
  next
    case False
    then have "[i + 1..<n] = [i + 1..<i + BATCH_SIZE] @ [i + BATCH_SIZE..<n]"
      using upt_add_eq_append [of "i + 1" "i + BATCH_SIZE" "n - (i + BATCH_SIZE)"]
      by (simp add: BATCH_SIZE_def)
    moreover have "\<forall>j\<in>set [i + 1..<i + BATCH_SIZE]. \<not> BATCH_SIZE dvd j"
      using no_start_between [OF assms(1)] by auto
    then have "filter (\<lambda>i. BATCH_SIZE dvd i) [i + 1..<i + BATCH_SIZE] = []"
      by (simp add: filter_empty_conv)
    ultimately show ?thesis by simp
  qed
  with assms show ?thesis by (simp add: upt_conv_Cons)
qed

lemma final_batch_iff:
  assumes "BATCH_SIZE dvd i" and "i < n"
  shows "(n \<le> i + BATCH_SIZE) \<longleftrightarrow> (i = BATCH_SIZE * ((n - 1) div BATCH_SIZE))"
proof -
  from assms(1) obtain q where q: "i = 4 * q" unfolding BATCH_SIZE_def by (elim dvdE)
  with assms(2) show ?thesis unfolding BATCH_SIZE_def by auto
qed

lemma generate_loop_batches:
  assumes "BATCH_SIZE dvd i"
  shows "\<exists>k\<le>length (filter (\<lambda>i. BATCH_SIZE dvd i) [i..<length outline]).
           yielded (generate_loop send outline i out) =
             out @ concat (map (batch_yield send outline)
                             (take k (filter (\<lambda>i. BATCH_SIZE dvd i) [i..<length outline])))
         \<and> (thrown (generate_loop send outline i out) = None \<longrightarrow>
              k = length (filter (\<lambda>i. BATCH_SIZE dvd i) [i..<length outline]))"
  using assms
proof (induction send outline i out rule: generate_loop.induct)
  case (1 send outline i out)
  let ?starts = "\<lambda>i. filter (\<lambda>i. BATCH_SIZE dvd i) [i..<length outline]"
  let ?f = "batch_yield send outline"
  show ?case
  proof (cases "i < length outline")
    case False
    then have "generate_loop send outline i out = \<lparr>yielded = out, thrown = None\<rparr>"
      by (subst generate_loop.simps) simp
    moreover from False have "?starts i = []" by simp
    ultimately have "0 \<le> length (?starts i)
        \<and> yielded (generate_loop send outline i out) = out @ concat (map ?f (take 0 (?starts i)))
        \<and> (thrown (generate_loop send outline i out) = None \<longrightarrow> 0 = length (?starts i))"
      by simp
    then show ?thesis by (rule_tac x = 0 in exI)
  next
    case lt: True
    have st: "?starts i = i # ?starts (i + BATCH_SIZE)" using 1(2) lt by (rule starts_step)
    let ?last = "length outline \<le> min (i + BATCH_SIZE) (length outline)"
    let ?r = "outcome (withRetry (send (batch_message outline i)) DEFAULT_MAX_RETRIES)"
    have last: "?last \<longleftrightarrow> i = final_batch_start outline"
      using final_batch_iff [OF 1(2) lt] by (simp add: final_batch_start_def)
    show ?thesis
    proof (cases ?r)
      case (Inl e)
      with lt have "generate_loop send outline i out = \<lparr>yielded = out, thrown = Some e\<rparr>"
        by (subst generate_loop.simps) (simp add: Let_def)
      then have "0 \<le> length (?starts i)
          \<and> yielded (generate_loop send outline i out) = out @ concat (map ?f (take 0 (?starts i)))
          \<and> (thrown (generate_loop send outline i out) = None \<longrightarrow> 0 = length (?starts i))"
        by simp
      then show ?thesis by (rule_tac x = 0 in exI)
    next
      case (Inr resp)
      let ?out' = "out @ batch_chunks ?last (chunks resp)"
      have fi: "?f i = batch_chunks ?last (chunks resp)"
        using Inr last by (simp add: batch_yield_def batch_chunks_map)
      show ?thesis
      proof (cases "failure resp")
        case (Some e)
        with lt Inr have "generate_loop send outline i out = \<lparr>yielded = ?out', thrown = Some e\<rparr>"
          by (subst generate_loop.simps) (simp add: Let_def)
        then have "1 \<le> length (?starts i)
            \<and> yielded (generate_loop send outline i out) = out @ concat (map ?f (take 1 (?starts i)))
            \<and> (thrown (generate_loop send outline i out) = None \<longrightarrow> 1 = length (?starts i))"
          unfolding st using fi by simp
        then show ?thesis by (rule_tac x = 1 in exI)
      next
        case None
        have dv: "BATCH_SIZE dvd i + BATCH_SIZE" using 1(2) by simp
        from lt Inr None
        have step: "generate_loop send outline i out = generate_loop send outline (i + BATCH_SIZE) ?out'"
          by (subst generate_loop.simps) (simp add: Let_def)
        from 1(1) [OF lt refl refl Inr refl None dv]
        obtain k where k: "k \<le> length (?starts (i + BATCH_SIZE)) \<and>
          yielded (generate_loop send outline (i + BATCH_SIZE) ?out') =
             ?out' @ concat (map ?f (take k (?starts (i + BATCH_SIZE)))) \<and>
          (thrown (generate_loop send outline (i + BATCH_SIZE) ?out') = None \<longrightarrow>
             k = length (?starts (i + BATCH_SIZE)))" ..
        have "Suc k \<le> length (?starts i)
          \<and> yielded (generate_loop send outline i out) =
            out @ concat (map ?f (take (Suc k) (?starts i)))
          \<and> (thrown (generate_loop send outline i out) = None \<longrightarrow> Suc k = length (?starts i))"
          unfolding st step using k fi by simp
        then show ?thesis by (rule_tac x = "Suc k" in exI)
      qed
    qed
  qed
qed

text \<open>
  Claim C8 (as amended). The generator works through the batches in order, and stops early
  only by throwing. Every chunk it yields for the final batch carries \<^verbatim>\<open>isComplete\<close> true
  (all the chunks of that batch, not its concluding chunk alone) and every chunk it yields
  for an earlier batch carries \<^verbatim>\<open>isComplete\<close> false: the chunks yielded are, batch after
  batch, the non-empty texts of the batch's response, each with the flag that says whether
  the batch is the final one.
\<close>

theorem isComplete_marks_final_batch:
  "\<exists>k\<le>length (batch_starts outline).
      yielded (generatePresentationStream send outline) =
        concat (map (\<lambda>i. case outcome (withRetry (send (batch_message outline i)) DEFAULT_MAX_RETRIES) of
                            Inl error \<Rightarrow> []
                          | Inr responseStream \<Rightarrow>
                              map (\<lambda>t. \<lparr>chunk_text = t, isComplete = (i = final_batch_start outline)\<rparr>)
                                (batch_texts (chunks responseStream)))
                  (take k (batch_starts outline)))
      \<and> (thrown (generatePresentationStream send outline) = None \<longrightarrow> k = length (batch_starts outline))"
  using generate_loop_batches [of 0 outline send "[]"]
  unfolding generatePresentationStream_def batch_starts_def batch_yield_def by simp

text \<open>
  Claim C8 as stated fails: for an outline of one item whose response arrives in two
  chunks, the first chunk is already flagged complete although it does not conclude the
  batch.
\<close>

theorem isComplete_not_only_last_chunk:
  \<open>yielded (generatePresentationStream two_chunk_backend (sample_outline 1)) =
     [\<lparr>chunk_text = js ''{"sl'', isComplete = True\<rparr>,
      \<lparr>chunk_text = js ''ides":[]}'', isComplete = True\<rparr>]\<close>
  by code_simp

lemma two_batch_facts:
  "batch_starts (sample_outline 5) = [0, 4]"
  "final_batch_start (sample_outline 5) = 4"
  "thrown (generatePresentationStream two_batch_backend (sample_outline 5)) = None"
  "outcome (withRetry (two_batch_backend (batch_message (sample_outline 5) 0)) DEFAULT_MAX_RETRIES)
     = Inr \<lparr>chunks = [Some (js ''a''), None, Some []], failure = None\<rparr>"
  "outcome (withRetry (two_batch_backend (batch_message (sample_outline 5) 4)) DEFAULT_MAX_RETRIES)
     = Inr \<lparr>chunks = [Some (js ''b''), Some (js ''c'')], failure = None\<rparr>"
  "batch_texts [Some (js ''a''), None, Some []] = [js ''a'']"
  "batch_texts [Some (js ''b''), Some (js ''c'')] = [js ''b'', js ''c'']"
  by code_simp+

text \<open>
  An outline of five items, generated in two batches: the chunk of the first batch is
  flagged false, both chunks of the final batch are flagged true.
\<close>

theorem isComplete_marks_final_batch_witness:
  "yielded (generatePresentationStream two_batch_backend (sample_outline 5)) =
     [\<lparr>chunk_text = js ''a'', isComplete = False\<rparr>,
      \<lparr>chunk_text = js ''b'', isComplete = True\<rparr>,
      \<lparr>chunk_text = js ''c'', isComplete = True\<rparr>]"
  using isComplete_marks_final_batch [of "sample_outline 5" two_batch_backend]
  by (auto simp: two_batch_facts)

end
